theory Spec2Isabelle
  imports Main
begin

section \<open>Characters and strings\<close>

text \<open>
  A JavaScript string is modelled as a \<^typ>\<open>string\<close>, one \<^typ>\<open>char\<close> per code point
  (the code points 0..255; the lexer's \<open>Array.from(line)\<close> splits a line into code points).
  All characters the program inspects (space, tab, newline, the list, quote, header, table and
  style markers) are ASCII.
\<close>

abbreviation nl :: char where
  "nl \<equiv> CHR 0x0A"

abbreviation tab :: char where
  "tab \<equiv> CHR 0x09"

abbreviation backtick :: char where
  "backtick \<equiv> CHR 0x60"

text \<open>\<open>String.prototype.trim\<close> strips white space and line terminators from both ends; in
  the modelled range these are TAB, LF, VT, FF, CR, SPACE and NBSP.\<close>

definition isWhiteSpace :: "char \<Rightarrow> bool" where
  "isWhiteSpace c = (c = tab \<or> c = nl \<or> c = CHR 0x0B \<or> c = CHR 0x0C \<or> c = CHR 0x0D
     \<or> c = CHR '' '' \<or> c = CHR 0xA0)"

definition trim :: "string \<Rightarrow> string" where
  "trim s = rev (dropWhile isWhiteSpace (rev (dropWhile isWhiteSpace s)))"

text \<open>\<open>text.split('\n')\<close>: the pieces between newlines; an empty text gives one empty piece.\<close>

fun split_nl :: "string \<Rightarrow> string list" where
  "split_nl [] = [[]]"
| "split_nl (c # cs) =
     (if c = nl then [] # split_nl cs
      else (case split_nl cs of [] \<Rightarrow> [[c]] | l # ls \<Rightarrow> (c # l) # ls))"

text \<open>\<open>chars[pos]\<close>: reading past the end of a JavaScript array gives \<open>undefined\<close>.\<close>

definition charAt :: "string \<Rightarrow> nat \<Rightarrow> char option" where
  "charAt cs p = (if p < length cs then Some (cs ! p) else None)"

section \<open>Tokens (lexer.js)\<close>

datatype Tok = TEXT | BLOCK_QUOTE | END_BLOCK_QUOTE | LIST_ITEM | END_LIST_ITEM | LIST
  | END_LIST | CODE_BLOCK | BLANK_LINE

record ListFrame =
  anchor :: nat
  indent :: nat

text \<open>The third field of a token is untyped in the source: a number (a quote level, a
  code-block column, the anchor of a popped list), a list frame, the pair
  \<open>[indentation, lists.at(-1)]\<close> of a sibling item, or absent.\<close>

datatype Data = Undefined | Num nat | Frame ListFrame | Sibling nat ListFrame

record Token =
  tok :: Tok
  val :: string
  data :: Data

definition newToken :: "Tok \<Rightarrow> string \<Rightarrow> Data \<Rightarrow> Token" where
  "newToken t v d = \<lparr>tok = t, val = v, data = d\<rparr>"

section \<open>The lexer (lexer.js)\<close>

text \<open>The array \<open>lists\<close> is a stack whose top is its last element (\<open>push\<close>, \<open>pop\<close>,
  \<open>at(-1)\<close>); the field is named \<open>lists'\<close> here.\<close>

record Lexer =
  lines :: "string list"
  blockQuote :: nat
  lists' :: "ListFrame list"
  indentation :: nat
  pos :: nat
  chars :: string
  line :: string

definition newLexer :: "string \<Rightarrow> Lexer" where
  "newLexer text = \<lparr>lines = map (\<lambda>l. l @ [nl]) (split_nl text), blockQuote = 0, lists' = [],
     indentation = 0, pos = 0, chars = [], line = []\<rparr>"

text \<open>\<open>for (; this.blockQuote > 0; this.blockQuote--)\<close> of \<open>resetContext\<close>.\<close>

fun endBlockQuotes :: "nat \<Rightarrow> Token list" where
  "endBlockQuotes 0 = []"
| "endBlockQuotes (Suc n) = newToken END_BLOCK_QUOTE [] (Num (Suc n)) # endBlockQuotes n"

text \<open>\<open>while (this.lists.length > 0)\<close> of \<open>resetContext\<close>: pop every frame.\<close>

fun endLists :: "ListFrame list \<Rightarrow> Token list" where
  "endLists ls =
     (if ls = [] then []
      else newToken END_LIST_ITEM [] (Num (anchor (last ls)))
         # newToken END_LIST [] (Num (anchor (last ls)))
         # endLists (butlast ls))"

declare endLists.simps [simp del]

definition resetContext :: "Lexer \<Rightarrow> Token list \<times> Lexer" where
  "resetContext s =
     (endBlockQuotes (blockQuote s) @ endLists (lists' s),
      s\<lparr>blockQuote := 0, lists' := [], indentation := 0\<rparr>)"

text \<open>The two space-counting loops of \<open>tokenizeBlock\<close>
  (\<open>while (chars[pos] === ' ' && n < limit) { n++; pos++; }\<close>), returning the count and the
  new position.\<close>

function countSpaces :: "string \<Rightarrow> nat \<Rightarrow> nat \<Rightarrow> nat \<Rightarrow> nat \<times> nat" where
  "countSpaces cs p n lim =
     (if charAt cs p = Some (CHR '' '') \<and> n < lim then countSpaces cs (Suc p) (Suc n) lim
      else (n, p))"
  by pat_completeness auto
termination
  by (relation "measure (\<lambda>(cs, p, n, lim). lim - n)") auto

declare countSpaces.simps [simp del]

text \<open>\<open>while (indentation < this.lists.at(-1)?.anchor)\<close>: the closed frames' tokens and the
  remaining stack.\<close>

fun popLists :: "nat \<Rightarrow> ListFrame list \<Rightarrow> Token list \<times> ListFrame list" where
  "popLists ind ls =
     (if ls \<noteq> [] \<and> ind < anchor (last ls) then
        (let (toks, rest) = popLists ind (butlast ls)
         in (newToken END_LIST_ITEM [] (Num (anchor (last ls)))
             # newToken END_LIST [] (Num (anchor (last ls))) # toks, rest))
      else ([], ls))"

declare popLists.simps [simp del]

text \<open>The marker loop of the block-quote branch: each round takes a \<open>>\<close> and, when one
  follows, a space or a tab; it returns \<open>val\<close>, \<open>count\<close> and the new position.\<close>

function scanQuote :: "string \<Rightarrow> nat \<Rightarrow> string \<Rightarrow> nat \<Rightarrow> string \<times> nat \<times> nat" where
  "scanQuote cs p v count =
     (if charAt cs p = Some (CHR ''>'') then
        (if Suc p < length cs \<and> (cs ! Suc p = CHR '' '' \<or> cs ! Suc p = tab)
         then scanQuote cs (Suc (Suc p)) (v @ [CHR ''>'', cs ! Suc p]) (Suc count)
         else scanQuote cs (Suc p) (v @ [CHR ''>'']) (Suc count))
      else (v, count, p))"
  by pat_completeness auto
termination
  by (relation "measure (\<lambda>(cs, p, v, count). length cs - p)") (auto simp: charAt_def split: if_splits)

declare scanQuote.simps [simp del]

definition isListMarker :: "char option \<Rightarrow> bool" where
  "isListMarker c = (c = Some (CHR ''-'') \<or> c = Some (CHR ''+'') \<or> c = Some (CHR ''*''))"

text \<open>\<open>tokenizeBlock\<close>. The text loops \<open>while (this.pos < this.chars.length) text +=
  this.chars[this.pos++]\<close> take \<open>drop pos chars\<close> and leave \<open>pos\<close> at the end of the line.
  \<open>postIndentation\<close> is at least 1 where \<open>listItemIndentation\<close> is computed (a space was
  just seen), so the subtraction stays in the naturals; \<open>listType.length\<close> is 1.\<close>

definition tokenizeBlock :: "Lexer \<Rightarrow> Token list \<times> Lexer" where
  "tokenizeBlock s =
     (let cs = chars s;
          (indentation0, p1) = countSpaces cs (pos s) 0 (indentation s + 4);
          (closed, ls) = popLists indentation0 (lists' s);
          s1 = s\<lparr>pos := p1, lists' := ls\<rparr>
      in if indentation0 = indentation s + 4 then
           (closed @ [newToken CODE_BLOCK (drop p1 cs) (Num indentation0)],
            s1\<lparr>pos := max p1 (length cs)\<rparr>)
         else if isListMarker (charAt cs p1) then
           (let listType = cs ! p1; p2 = Suc p1
            in if charAt cs p2 \<noteq> Some (CHR '' '') then
                 (closed @ [newToken TEXT [listType] Undefined], s1\<lparr>pos := p2\<rparr>)
               else
                 (let (postIndentation, p3) = countSpaces cs p2 0 5;
                      listItemIndentation = (postIndentation - 1) mod 4 + 1;
                      listIndentation = indentation0 + 1 + listItemIndentation;
                      frame = \<lparr>anchor = indentation0, indent = listIndentation\<rparr>;
                      sibling = (ls \<noteq> [] \<and> indentation0 < indent (last ls));
                      opener = (if sibling
                                then [newToken END_LIST_ITEM [] (Sibling indentation0 (last ls))]
                                else [newToken LIST [] (Frame frame)]);
                      item = newToken LIST_ITEM
                               (listType # replicate listItemIndentation (CHR '' '')) (Frame frame);
                      code = (if postIndentation = 5
                              then [newToken CODE_BLOCK (drop p3 cs) (Num (listIndentation + 4))]
                              else [])
                  in (closed @ opener @ [item] @ code,
                      s1\<lparr>lists' := (if sibling then ls else ls @ [frame]),
                         pos := (if postIndentation = 5 then max p3 (length cs) else p3),
                         indentation := listIndentation\<rparr>)))
         else if charAt cs p1 = Some (CHR ''>'') then
           (let (v, count0, p2) = scanQuote cs p1 [] 0;
                count = (if count0 < blockQuote s \<and> trim v \<noteq> trim (line s)
                         then blockQuote s else count0)
            in (closed
                @ map (\<lambda>i. newToken END_BLOCK_QUOTE [] (Num i))
                      (rev [Suc count ..< Suc (blockQuote s)])
                @ map (\<lambda>i. newToken BLOCK_QUOTE (if i = count then v else []) (Num i))
                      [Suc (blockQuote s) ..< Suc count],
                s1\<lparr>pos := p2, blockQuote := count\<rparr>))
         else (closed, s1))"

definition tokenizeLine :: "Lexer \<Rightarrow> Token list \<times> Lexer" where
  "tokenizeLine s =
     (if trim (line s) = [] then
        (let (toks, s1) = resetContext s
         in (toks @ [newToken BLANK_LINE [] Undefined], s1))
      else
        (let (toks, s1) = tokenizeBlock (s\<lparr>pos := 0, chars := line s\<rparr>)
         in (toks @ map (\<lambda>c. newToken TEXT [c] Undefined) (drop (pos s1) (chars s1)),
             s1\<lparr>pos := max (pos s1) (length (chars s1))\<rparr>)))"

text \<open>The loop \<open>for (const line of this.lines)\<close> of \<open>tokenizeFile\<close>.\<close>

fun tokenizeLines :: "string list \<Rightarrow> Lexer \<Rightarrow> Token list \<times> Lexer" where
  "tokenizeLines [] s = ([], s)"
| "tokenizeLines (l # ls) s =
     (let (toks, s1) = tokenizeLine (s\<lparr>line := l\<rparr>);
          (rest, s2) = tokenizeLines ls s1
      in (toks @ rest, s2))"

definition tokenizeFile :: "Lexer \<Rightarrow> Token list \<times> Lexer" where
  "tokenizeFile s =
     (let (toks, s1) = tokenizeLines (lines s) s;
          (closing, s2) = resetContext s1
      in (toks @ closing, s2))"

text \<open>\<open>new Lexer(text).tokenize()\<close>, as \<open>update\<close> in main.js calls it.\<close>

definition tokenize :: "string \<Rightarrow> Token list" where
  "tokenize text = fst (tokenizeFile (newLexer text))"

section \<open>The document tree and its rendering (ast.js)\<close>

datatype Node =
    DocumentNode "Node list"
  | HeaderNode nat "Node list"
  | TableNode "Node list" "Node list list"
  | BlockQuoteNode "Node list"
  | CodeBlockNode string
  | ListNode "Node list"
  | ListItemNode "Node list"
  | ParagraphNode "Node list"
  | LineNode "Node list"
  | StyleNode string "Node list"
  | TextNode string
  | ErrorNode string

text \<open>\<open>Array.prototype.join\<close>; \<open>join('')\<close> is \<^const>\<open>concat\<close>.\<close>

fun join :: "string \<Rightarrow> string list \<Rightarrow> string" where
  "join sep [] = []"
| "join sep [x] = x"
| "join sep (x # y # ys) = x @ sep @ join sep (y # ys)"

text \<open>The decimal digits of a number, as a template literal prints a header level.\<close>

fun showNat :: "nat \<Rightarrow> string" where
  "showNat n =
     (if n < 10 then [char_of (48 + n)] else showNat (n div 10) @ [char_of (48 + n mod 10)])"

declare showNat.simps [simp del]

fun html :: "Node \<Rightarrow> string" where
  "html (DocumentNode blocks) = join [nl] (map html blocks)"
| "html (HeaderNode level content) =
     ''<h'' @ showNat level @ ''>'' @ concat (map html content) @ ''</h'' @ showNat level @ ''>''"
| "html (TableNode header rows) =
     ''<table>'' @ [nl] @ ''<thead>''
     @ concat (map (\<lambda>col. ''<th>'' @ html col @ ''</th>'') header)
     @ ''</thead>'' @ [nl] @ ''<tbody>'' @ [nl]
     @ concat (map (\<lambda>row. [tab] @ ''<tr>''
                       @ concat (map (\<lambda>col. ''<td>'' @ html col @ ''</td>'') row)
                       @ ''</tr>'' @ [nl]) rows)
     @ ''</tbody>'' @ [nl] @ ''</table>''"
| "html (BlockQuoteNode blocks) = ''<blockquote>'' @ concat (map html blocks) @ ''</blockquote>''"
| "html (CodeBlockNode text) = ''<pre><code>'' @ text @ ''</code></pre>''"
| "html (ListNode items) = ''<ul>'' @ [nl] @ join [nl] (map html items) @ [nl] @ ''</ul>''"
| "html (ListItemNode blocks) = ''<li>'' @ concat (map html blocks) @ ''</li>''"
| "html (ParagraphNode lines') = ''<p>'' @ join ''<br>'' (map html lines') @ ''</p>''"
| "html (LineNode content) = concat (map html content)"
| "html (StyleNode type content) = ''<'' @ type @ ''>'' @ concat (map html content) @ ''</'' @ type @ ''>''"
| "html (TextNode text) = text"
| "html (ErrorNode text) = ''<span style=\"color: red;\">'' @ text @ ''</span>''"

section \<open>The token cursor (buffer.js)\<close>

record Buffer =
  tokens :: "Token list"
  index :: nat

definition newBuffer :: "Token list \<Rightarrow> Buffer" where
  "newBuffer toks = \<lparr>tokens = toks, index = 0\<rparr>"

text \<open>\<open>next\<close> advances the index even past the end, where it returns \<open>undefined\<close>
  (\<^const>\<open>None\<close>).\<close>

definition next_tok :: "Buffer \<Rightarrow> Token option \<times> Buffer" where
  "next_tok b =
     (if index b < length (tokens b) then Some (tokens b ! index b) else None,
      b\<lparr>index := Suc (index b)\<rparr>)"

definition peek :: "Buffer \<Rightarrow> Token option" where
  "peek b = (if index b < length (tokens b) then Some (tokens b ! index b) else None)"

definition hasNext :: "Buffer \<Rightarrow> bool" where
  "hasNext b = (index b < length (tokens b))"

text \<open>What \<open>expect\<close> is given: a string, compared with \<open>===\<close>, or a regular expression. The
  program's regular expressions are single character classes, \<open>[...]\<close> or \<open>[^...]\<close>, so
  \<open>test\<close> asks whether some character of the value is in (is not in) the class.
  \<open>RegExp.prototype.test\<close> converts its argument to a string: \<open>undefined\<close> is tested as
  the text "undefined".\<close>

datatype Matcher = Exact string | OneOf "char list" | NoneOf "char list"

datatype error = ParseError | TypeError

fun test :: "Matcher \<Rightarrow> string \<Rightarrow> bool" where
  "test (Exact e) s = (s = e)"
| "test (OneOf cls) s = list_ex (\<lambda>c. List.member cls c) s"
| "test (NoneOf cls) s = list_ex (\<lambda>c. \<not> List.member cls c) s"

fun matches :: "Matcher \<Rightarrow> string option \<Rightarrow> bool" where
  "matches (Exact e) v = (v = Some e)"
| "matches m None = test m ''undefined''"
| "matches m (Some s) = test m s"

text \<open>An exception leaves the cursor where the throwing call moved it, and the handler in
  \<open>parseDocument\<close> goes on from there: every result carries the cursor. The message of a
  \<open>ParseError\<close> is only logged and is not modelled.

  The class \<open>ParseError\<close> is declared in parser.js, and in the bundle main.js ahead of
  \<open>Buffer\<close>; buffer.js names it without importing it. The model reads
  \<open>throw new ParseError(...)\<close> as the bundle does: it raises a \<open>ParseError\<close>, which the handler
  of \<open>parseDocument\<close> catches. Where the name is not bound, the statement raises a
  \<open>ReferenceError\<close> in its place, which that handler throws again.\<close>

definition expect :: "Buffer \<Rightarrow> Matcher \<Rightarrow> (error + Token option) \<times> Buffer" where
  "expect b m =
     (let (found, b') = next_tok b
      in if matches m (map_option val found) then (Inr found, b') else (Inl ParseError, b'))"

text \<open>\<open>found += this.expect(expected).val\<close>: reading \<open>.val\<close> of \<open>undefined\<close> is a
  \<open>TypeError\<close>.\<close>

function expectAll :: "Buffer \<Rightarrow> Matcher \<Rightarrow> string \<Rightarrow> (error + string) \<times> Buffer" where
  "expectAll b m found =
     (if matches m (map_option val (peek b)) then
        (case expect b m of
           (Inl e, b') \<Rightarrow> (Inl e, b')
         | (Inr None, b') \<Rightarrow> (Inl TypeError, b')
         | (Inr (Some t), b') \<Rightarrow> expectAll b' m (found @ val t))
      else (Inr found, b))"
  by pat_completeness auto
termination
  by (relation "measure (\<lambda>(b, m, found). length (tokens b) - index b)")
     (auto simp: expect_def next_tok_def split: if_splits)

declare expectAll.simps [simp del]

definition expectOrEOF :: "Buffer \<Rightarrow> Matcher \<Rightarrow> (error + unit) \<times> Buffer" where
  "expectOrEOF b m =
     (if hasNext b then (case expect b m of (Inl e, b') \<Rightarrow> (Inl e, b') | (Inr _, b') \<Rightarrow> (Inr (), b'))
      else (Inr (), b))"

section \<open>The parser (parser.js)\<close>

definition styleChars :: Matcher where
  "styleChars = OneOf [CHR ''*'', CHR ''_'', CHR ''~'', CHR ''^'', backtick, CHR ''+'', CHR ''-'']"

definition layoutChars :: Matcher where
  "layoutChars = OneOf [CHR ''|'']"

text \<open>The table \<open>styleTypes\<close> of \<open>parseStyle\<close>. \<open>key in styleTypes\<close> is modelled as membership
  in the table's own keys.\<close>

definition styleTypes :: "string \<Rightarrow> string option" where
  "styleTypes = map_of
     [(''*'', ''em''), (''**'', ''strong''), (''_'', ''em''), (''__'', ''u''), (''~~'', ''s''),
      (''~'', ''sub''), (''^'', ''sup''), (''--'', ''small''), (''++'', ''big''),
      ([backtick], ''code'')]"

text \<open>A parsing function that may loop forever takes fuel: a number of nested calls it may
  make, one per call and per loop round. Its result is \<^const>\<open>None\<close> when the fuel runs out
  and otherwise the value returned or the exception thrown, with the cursor.\<close>

type_synonym 'a result = "((error + 'a) \<times> Buffer) option"

function parseTextLoop :: "Buffer \<Rightarrow> string \<Rightarrow> string \<times> Buffer" where
  "parseTextLoop b text =
     (case peek b of
        None \<Rightarrow> (text, b)
      | Some t \<Rightarrow>
          if tok t = TEXT \<and> \<not> test styleChars (val t) \<and> \<not> test layoutChars (val t)
          then parseTextLoop (snd (next_tok b)) (text @ val t)
          else (text, b))"
  by pat_completeness auto
termination
  by (relation "measure (\<lambda>(b, text). length (tokens b) - index b)")
     (auto simp: peek_def next_tok_def split: if_splits)

declare parseTextLoop.simps [simp del]

definition parseText :: "Buffer \<Rightarrow> Node \<times> Buffer" where
  "parseText b = (let (text, b') = parseTextLoop b [] in (TextNode text, b'))"

text \<open>\<open>parseInline\<close>, \<open>parseStyle\<close> and the \<open>while\<close> loop of \<open>parseStyle\<close>. \<open>start[0]\<close> and
  \<open>start[1]\<close> are the one-character strings \<open>take 1 start\<close> and \<open>take 1 (drop 1 start)\<close>
  (\<open>start\<close> is a key of the table there, of one or two characters).\<close>

fun parseInline :: "nat \<Rightarrow> Buffer \<Rightarrow> Node result"
  and parseStyle :: "nat \<Rightarrow> Buffer \<Rightarrow> Node result"
  and parseStyleLoop :: "nat \<Rightarrow> string \<Rightarrow> Node list \<Rightarrow> Buffer \<Rightarrow> Node result"
where
  "parseInline 0 b = None"
| "parseInline (Suc n) b =
     (case peek b of
        None \<Rightarrow> Some (Inl TypeError, b)
      | Some t \<Rightarrow> if test styleChars (val t) then parseStyle n b else Some (Inr (fst (parseText b)), snd (parseText b)))"
| "parseStyle 0 b = None"
| "parseStyle (Suc n) b =
     (case expect b styleChars of
        (Inl e, b1) \<Rightarrow> Some (Inl e, b1)
      | (Inr None, b1) \<Rightarrow> Some (Inl TypeError, b1)
      | (Inr (Some t), b1) \<Rightarrow>
          (if styleTypes (val t @ (case peek b1 of None \<Rightarrow> ''undefined'' | Some t' \<Rightarrow> val t')) \<noteq> None
           then
             (case expect b1 (Exact (val t)) of
                (Inl e, b2) \<Rightarrow> Some (Inl e, b2)
              | (Inr None, b2) \<Rightarrow> Some (Inl TypeError, b2)
              | (Inr (Some t2), b2) \<Rightarrow>
                  (if styleTypes (val t @ val t2) = None then Some (Inr (TextNode (val t @ val t2)), b2)
                   else parseStyleLoop n (val t @ val t2) [] b2))
           else
             (if styleTypes (val t) = None then Some (Inr (TextNode (val t)), b1)
              else parseStyleLoop n (val t) [] b1)))"
| "parseStyleLoop 0 start content b = None"
| "parseStyleLoop (Suc n) start content b =
     (case peek b of
        None \<Rightarrow> Some (Inr (StyleNode ''span'' (TextNode start # content)), b)
      | Some t \<Rightarrow>
          if tok t \<noteq> TEXT then Some (Inr (StyleNode ''span'' (TextNode start # content)), b)
          else if val t = take 1 start then
            (let b1 = snd (next_tok b)
             in if length start = 1 \<or> map_option val (peek b1) = Some (take 1 (drop 1 start)) then
                  Some (Inr (StyleNode (case styleTypes start of None \<Rightarrow> [] | Some ty \<Rightarrow> ty) content),
                        if length start = 2 then snd (next_tok b1) else b1)
                else
                  (case parseInline n b1 of
                     None \<Rightarrow> None
                   | Some (Inl e, b2) \<Rightarrow> Some (Inl e, b2)
                   | Some (Inr node, b2) \<Rightarrow>
                       parseStyleLoop n start (content @ [TextNode (take 1 start), node]) b2))
          else
            (case parseInline n b of
               None \<Rightarrow> None
             | Some (Inl e, b2) \<Rightarrow> Some (Inl e, b2)
             | Some (Inr node, b2) \<Rightarrow> parseStyleLoop n start (content @ [node]) b2))"

text \<open>\<open>parseHeader\<close> and its loop.\<close>

fun parseHeaderLoop :: "nat \<Rightarrow> nat \<Rightarrow> Node list \<Rightarrow> Buffer \<Rightarrow> Node result" where
  "parseHeaderLoop 0 level content b = None"
| "parseHeaderLoop (Suc n) level content b =
     (if hasNext b \<and> map_option val (peek b) \<noteq> Some [nl] then
        (case parseInline n b of
           None \<Rightarrow> None
         | Some (Inl e, b1) \<Rightarrow> Some (Inl e, b1)
         | Some (Inr node, b1) \<Rightarrow> parseHeaderLoop n level (content @ [node]) b1)
      else
        (case expectOrEOF b (Exact [nl]) of
           (Inl e, b1) \<Rightarrow> Some (Inl e, b1)
         | (Inr _, b1) \<Rightarrow> Some (Inr (HeaderNode level content), b1)))"

definition parseHeader :: "nat \<Rightarrow> Buffer \<Rightarrow> Node result" where
  "parseHeader n b =
     (case expectAll b (Exact ''#'') [] of
        (Inl e, b1) \<Rightarrow> Some (Inl e, b1)
      | (Inr hashes, b1) \<Rightarrow> parseHeaderLoop n (length hashes) [] b1)"

text \<open>\<open>parseTableRow\<close>, \<open>parseTableSep\<close> and \<open>parseTable\<close> with their loops.\<close>

fun parseTableRowLoop :: "nat \<Rightarrow> Node list \<Rightarrow> Buffer \<Rightarrow> (Node list) result" where
  "parseTableRowLoop 0 row b = None"
| "parseTableRowLoop (Suc n) row b =
     (if hasNext b \<and> map_option val (peek b) \<noteq> Some [nl] then
        (case parseInline n b of
           None \<Rightarrow> None
         | Some (Inl e, b1) \<Rightarrow> Some (Inl e, b1)
         | Some (Inr col, b1) \<Rightarrow>
             (case expect b1 (Exact ''|'') of
                (Inl e, b2) \<Rightarrow> Some (Inl e, b2)
              | (Inr _, b2) \<Rightarrow> parseTableRowLoop n (row @ [col]) b2))
      else
        (case expectOrEOF b (Exact [nl]) of
           (Inl e, b1) \<Rightarrow> Some (Inl e, b1)
         | (Inr _, b1) \<Rightarrow> Some (Inr row, b1)))"

definition parseTableRow :: "nat \<Rightarrow> Buffer \<Rightarrow> (Node list) result" where
  "parseTableRow n b =
     (case expect b (Exact ''|'') of
        (Inl e, b1) \<Rightarrow> Some (Inl e, b1)
      | (Inr _, b1) \<Rightarrow> parseTableRowLoop n [] b1)"

fun parseTableSepLoop :: "nat \<Rightarrow> string list \<Rightarrow> Buffer \<Rightarrow> (string list) result" where
  "parseTableSepLoop 0 row b = None"
| "parseTableSepLoop (Suc n) row b =
     (if hasNext b \<and> map_option val (peek b) \<noteq> Some [nl] then
        (case expectAll b (OneOf [CHR '' '', tab]) [] of
           (Inl e, b1) \<Rightarrow> Some (Inl e, b1)
         | (Inr s1, b1) \<Rightarrow>
             (case expectAll b1 (Exact ''-'') [] of
                (Inl e, b2) \<Rightarrow> Some (Inl e, b2)
              | (Inr s2, b2) \<Rightarrow>
                  (case expectAll b2 (OneOf [CHR '' '', tab]) [] of
                     (Inl e, b3) \<Rightarrow> Some (Inl e, b3)
                   | (Inr s3, b3) \<Rightarrow>
                       (case expect b3 (Exact ''|'') of
                          (Inl e, b4) \<Rightarrow> Some (Inl e, b4)
                        | (Inr _, b4) \<Rightarrow> parseTableSepLoop n (row @ [s1 @ s2 @ s3]) b4))))
      else
        (case expectOrEOF b (Exact [nl]) of
           (Inl e, b1) \<Rightarrow> Some (Inl e, b1)
         | (Inr _, b1) \<Rightarrow> Some (Inr row, b1)))"

definition parseTableSep :: "nat \<Rightarrow> Buffer \<Rightarrow> (string list) result" where
  "parseTableSep n b =
     (case expect b (Exact ''|'') of
        (Inl e, b1) \<Rightarrow> Some (Inl e, b1)
      | (Inr _, b1) \<Rightarrow> parseTableSepLoop n [] b1)"

fun parseTableRows :: "nat \<Rightarrow> Node list \<Rightarrow> Node list list \<Rightarrow> Buffer \<Rightarrow> Node result" where
  "parseTableRows 0 header rows b = None"
| "parseTableRows (Suc n) header rows b =
     (if map_option val (peek b) = Some ''|'' then
        (case parseTableRow n b of
           None \<Rightarrow> None
         | Some (Inl e, b1) \<Rightarrow> Some (Inl e, b1)
         | Some (Inr row, b1) \<Rightarrow> parseTableRows n header (rows @ [row]) b1)
      else Some (Inr (TableNode header rows), b))"

definition parseTable :: "nat \<Rightarrow> Buffer \<Rightarrow> Node result" where
  "parseTable n b =
     (case parseTableRow n b of
        None \<Rightarrow> None
      | Some (Inl e, b1) \<Rightarrow> Some (Inl e, b1)
      | Some (Inr header, b1) \<Rightarrow>
          (case parseTableSep n b1 of
             None \<Rightarrow> None
           | Some (Inl e, b2) \<Rightarrow> Some (Inl e, b2)
           | Some (Inr _, b2) \<Rightarrow> parseTableRows n header [] b2))"

text \<open>\<open>parseCodeBlock\<close>: its loop consumes a token each round.\<close>

function parseCodeBlockLoop :: "Buffer \<Rightarrow> string \<Rightarrow> string \<times> Buffer" where
  "parseCodeBlockLoop b text =
     (case peek b of
        None \<Rightarrow> (text, b)
      | Some t \<Rightarrow>
          if tok t = CODE_BLOCK then parseCodeBlockLoop (snd (next_tok b)) (text @ val t)
          else (text, b))"
  by pat_completeness auto
termination
  by (relation "measure (\<lambda>(b, text). length (tokens b) - index b)")
     (auto simp: peek_def next_tok_def split: if_splits)

declare parseCodeBlockLoop.simps [simp del]

definition parseCodeBlock :: "Buffer \<Rightarrow> Node \<times> Buffer" where
  "parseCodeBlock b = (let (text, b') = parseCodeBlockLoop b [] in (CodeBlockNode text, b'))"

text \<open>\<open>parseParagraph\<close>.\<close>

fun parseParagraphLoop :: "nat \<Rightarrow> Node list \<Rightarrow> Buffer \<Rightarrow> Node result" where
  "parseParagraphLoop 0 lines' b = None"
| "parseParagraphLoop (Suc n) lines' b =
     (case peek b of
        None \<Rightarrow> Some (Inr (ParagraphNode lines'), b)
      | Some t \<Rightarrow>
          if val t \<noteq> [nl] \<and> tok t = TEXT then
            (case parseInline n b of
               None \<Rightarrow> None
             | Some (Inl e, b1) \<Rightarrow> Some (Inl e, b1)
             | Some (Inr node, b1) \<Rightarrow> parseParagraphLoop n (lines' @ [node]) b1)
          else Some (Inr (ParagraphNode lines'), b))"

definition parseParagraph :: "nat \<Rightarrow> Buffer \<Rightarrow> Node result" where
  "parseParagraph n b = parseParagraphLoop n [] b"

text \<open>\<open>parseBlock\<close>, \<open>parseBlockQuote\<close>, \<open>parseList\<close> and \<open>parseListItem\<close> with their loops.\<close>

function (sequential) parseBlock :: "nat \<Rightarrow> Buffer \<Rightarrow> Node result"
  and parseBlockQuote :: "nat \<Rightarrow> Buffer \<Rightarrow> Node result"
  and parseBlockQuoteLoop :: "nat \<Rightarrow> Node list \<Rightarrow> Buffer \<Rightarrow> Node result"
  and parseList :: "nat \<Rightarrow> Buffer \<Rightarrow> Node result"
  and parseListLoop :: "nat \<Rightarrow> Node list \<Rightarrow> Buffer \<Rightarrow> Node result"
  and parseListItem :: "nat \<Rightarrow> Buffer \<Rightarrow> Node result"
  and parseListItemLoop :: "nat \<Rightarrow> Node list \<Rightarrow> Buffer \<Rightarrow> Node result"
where
  "parseBlock 0 b = None"
| "parseBlock (Suc n) b =
     (let b1 = (if map_option tok (peek b) = Some BLANK_LINE \<or> map_option val (peek b) = Some [nl]
                then snd (next_tok b) else b)
      in if map_option val (peek b1) = Some ''#'' then parseHeader n b1
         else if map_option val (peek b1) = Some ''|'' then parseTable n b1
         else if map_option tok (peek b1) = Some BLOCK_QUOTE then parseBlockQuote n b1
         else if map_option tok (peek b1) = Some CODE_BLOCK
           then Some (Inr (fst (parseCodeBlock b1)), snd (parseCodeBlock b1))
         else if map_option tok (peek b1) = Some LIST then parseList n b1
         else parseParagraph n b1)"
| "parseBlockQuote 0 b = None"
| "parseBlockQuote (Suc n) b =
     (case parseBlock n (snd (next_tok b)) of
        None \<Rightarrow> None
      | Some (Inl e, b1) \<Rightarrow> Some (Inl e, b1)
      | Some (Inr block, b1) \<Rightarrow> parseBlockQuoteLoop n [block] b1)"
| "parseBlockQuoteLoop 0 blocks b = None"
| "parseBlockQuoteLoop (Suc n) blocks b =
     (if map_option tok (peek b) \<noteq> Some END_BLOCK_QUOTE then
        (case parseBlock n b of
           None \<Rightarrow> None
         | Some (Inl e, b1) \<Rightarrow> Some (Inl e, b1)
         | Some (Inr block, b1) \<Rightarrow> parseBlockQuoteLoop n (blocks @ [block]) b1)
      else Some (Inr (BlockQuoteNode blocks), snd (next_tok b)))"
| "parseList 0 b = None"
| "parseList (Suc n) b = parseListLoop n [] (snd (next_tok b))"
| "parseListLoop 0 items b = None"
| "parseListLoop (Suc n) items b =
     (if map_option tok (peek b) \<noteq> Some END_LIST then
        (case parseListItem n b of
           None \<Rightarrow> None
         | Some (Inl e, b1) \<Rightarrow> Some (Inl e, b1)
         | Some (Inr item, b1) \<Rightarrow> parseListLoop n (items @ [item]) b1)
      else Some (Inr (ListNode items), snd (next_tok b)))"
| "parseListItem 0 b = None"
| "parseListItem (Suc n) b = parseListItemLoop n [] (snd (next_tok b))"
| "parseListItemLoop 0 blocks b = None"
| "parseListItemLoop (Suc n) blocks b =
     (if map_option tok (peek b) \<noteq> Some END_LIST_ITEM then
        (case parseBlock n b of
           None \<Rightarrow> None
         | Some (Inl e, b1) \<Rightarrow> Some (Inl e, b1)
         | Some (Inr block, b1) \<Rightarrow> parseListItemLoop n (blocks @ [block]) b1)
      else Some (Inr (ListItemNode blocks), snd (next_tok b)))"
  by pat_completeness auto
termination
  by (relation "measure (\<lambda>x. case x of
        Inl (Inl (n, _)) \<Rightarrow> n
      | Inl (Inr (Inl (n, _))) \<Rightarrow> n
      | Inl (Inr (Inr (n, _))) \<Rightarrow> n
      | Inr (Inl (Inl (n, _))) \<Rightarrow> n
      | Inr (Inl (Inr (n, _))) \<Rightarrow> n
      | Inr (Inr (Inl (n, _))) \<Rightarrow> n
      | Inr (Inr (Inr (n, _))) \<Rightarrow> n)") simp_all

text \<open>\<open>parseDocument\<close>: the loop with its \<open>try\<close>/\<open>catch\<close>. A \<open>ParseError\<close> is handled by
  skipping to the end of the line; any other exception is thrown again (and so is one thrown
  by the handler itself).\<close>

fun parseDocumentLoop :: "nat \<Rightarrow> Node list \<Rightarrow> Buffer \<Rightarrow> Node result" where
  "parseDocumentLoop 0 blocks b = None"
| "parseDocumentLoop (Suc n) blocks b =
     (if hasNext b then
        (case parseBlock n b of
           None \<Rightarrow> None
         | Some (Inr block, b1) \<Rightarrow> parseDocumentLoop n (blocks @ [block]) b1
         | Some (Inl TypeError, b1) \<Rightarrow> Some (Inl TypeError, b1)
         | Some (Inl ParseError, b1) \<Rightarrow>
             (case expectAll b1 (NoneOf [nl]) [] of
                (Inl e, b2) \<Rightarrow> Some (Inl e, b2)
              | (Inr skipped, b2) \<Rightarrow>
                  (case expectAll b2 (Exact [nl]) [] of
                     (Inl e, b3) \<Rightarrow> Some (Inl e, b3)
                   | (Inr newlines, b3) \<Rightarrow>
                       parseDocumentLoop n (blocks @ [ErrorNode (skipped @ newlines)]) b3)))
      else Some (Inr (DocumentNode blocks), b))"

definition parseDocument :: "nat \<Rightarrow> Buffer \<Rightarrow> Node result" where
  "parseDocument n b = parseDocumentLoop n [] b"

text \<open>\<open>new Parser(tokens).parse()\<close>: the tree, or the exception that escapes.\<close>

definition parse :: "nat \<Rightarrow> Token list \<Rightarrow> (error + Node) option" where
  "parse n toks = map_option fst (parseDocument n (newBuffer toks))"

section \<open>Notions used to state the properties\<close>

text \<open>A lexer between two lines: the quote depth, the stack of open lists, the indentation
  baseline and the next line (the other fields are set anew for every line).\<close>

definition lexerState :: "nat \<Rightarrow> ListFrame list \<Rightarrow> nat \<Rightarrow> string \<Rightarrow> Lexer" where
  "lexerState bq ls ind l =
     \<lparr>lines = [], blockQuote = bq, lists' = ls, indentation = ind, pos = 0, chars = [], line = l\<rparr>"

text \<open>The number of consecutive spaces of a line from a position on.\<close>

definition spacesAt :: "string \<Rightarrow> nat \<Rightarrow> nat" where
  "spacesAt cs p = length (takeWhile (\<lambda>c. c = CHR '' '') (drop p cs))"

text \<open>The pair of tokens that closes a list frame.\<close>

definition closers :: "ListFrame \<Rightarrow> Token list" where
  "closers f = [newToken END_LIST_ITEM [] (Num (anchor f)), newToken END_LIST [] (Num (anchor f))]"

text \<open>One \<open>TEXT\<close> token per character.\<close>

definition textTokens :: "string \<Rightarrow> Token list" where
  "textTokens cs = map (\<lambda>c. newToken TEXT [c] Undefined) cs"

text \<open>The result of a line: its tokens and the three fields that live across lines.\<close>

definition lineResult :: "Lexer \<Rightarrow> Token list \<times> nat \<times> ListFrame list \<times> nat" where
  "lineResult s = (fst (tokenizeLine s), blockQuote (snd (tokenizeLine s)),
     lists' (snd (tokenizeLine s)), indentation (snd (tokenizeLine s)))"

text \<open>The tokens each line contributes, in the order of the loop of \<open>tokenizeFile\<close>.\<close>

fun contributions :: "string list \<Rightarrow> Lexer \<Rightarrow> Token list list" where
  "contributions [] s = []"
| "contributions (l # ls) s =
     fst (tokenizeLine (s\<lparr>line := l\<rparr>)) # contributions ls (snd (tokenizeLine (s\<lparr>line := l\<rparr>)))"

text \<open>A token sequence that ends with the newline of its line: a \<open>TEXT\<close> token holding the
  newline, or a \<open>CODE_BLOCK\<close> token whose text ends with it.\<close>

definition endsWithNewline :: "Token list \<Rightarrow> bool" where
  "endsWithNewline T = (T \<noteq> [] \<and> (last T = newToken TEXT [nl] Undefined
        \<or> (tok (last T) = CODE_BLOCK \<and> val (last T) \<noteq> [] \<and> last (val (last T)) = nl)))"

text \<open>Nesting of sentinel tokens, checked with a stack of the kinds still open: an opening
  sentinel is pushed, a closing sentinel must find its own opening kind on top, any other
  token is skipped. A sequence is properly nested when the check succeeds and leaves nothing
  open.\<close>

definition isOpener :: "Tok \<Rightarrow> bool" where
  "isOpener k = (k = BLOCK_QUOTE \<or> k = LIST \<or> k = LIST_ITEM)"

fun openerOf :: "Tok \<Rightarrow> Tok option" where
  "openerOf END_BLOCK_QUOTE = Some BLOCK_QUOTE"
| "openerOf END_LIST = Some LIST"
| "openerOf END_LIST_ITEM = Some LIST_ITEM"
| "openerOf k = None"

fun nested :: "Tok list \<Rightarrow> Tok list \<Rightarrow> Tok list option" where
  "nested st [] = Some st"
| "nested st (k # ks) =
     (if isOpener k then nested (k # st) ks
      else (case openerOf k of
              None \<Rightarrow> nested st ks
            | Some opn \<Rightarrow>
                (case st of [] \<Rightarrow> None
                 | k' # st' \<Rightarrow> if k' = opn then nested st' ks else None)))"

definition properlyNested :: "Token list \<Rightarrow> bool" where
  "properlyNested ts = (nested [] (map tok ts) = Some [])"

text \<open>The two families of sentinels: those of block quotes, and those of lists and their
  items.\<close>

definition isQuoteTok :: "Tok \<Rightarrow> bool" where
  "isQuoteTok k = (k = BLOCK_QUOTE \<or> k = END_BLOCK_QUOTE)"

definition isListTok :: "Tok \<Rightarrow> bool" where
  "isListTok k = (k = LIST \<or> k = END_LIST \<or> k = LIST_ITEM \<or> k = END_LIST_ITEM)"

definition quoteSentinels :: "Token list \<Rightarrow> Token list" where
  "quoteSentinels ts = filter (\<lambda>t. isQuoteTok (tok t)) ts"

definition listSentinels :: "Token list \<Rightarrow> Token list" where
  "listSentinels ts = filter (\<lambda>t. isListTok (tok t)) ts"

definition countTok :: "Tok \<Rightarrow> Token list \<Rightarrow> nat" where
  "countTok k ts = length (filter (\<lambda>t. tok t = k) ts)"

text \<open>The kinds open for \<open>n\<close> nested lists (innermost first), and the kinds that close
  \<open>n\<close> lists.\<close>

definition listStack :: "nat \<Rightarrow> Tok list" where
  "listStack n = concat (replicate n [LIST_ITEM, LIST])"

definition listClosers :: "nat \<Rightarrow> Tok list" where
  "listClosers n = concat (replicate n [END_LIST_ITEM, END_LIST])"

text \<open>The last marker group of a block-quote marker text: its last \<open>>\<close> with what
  follows it.\<close>

definition lastMarkerGroup :: "string \<Rightarrow> string" where
  "lastMarkerGroup v = CHR ''>'' # rev (takeWhile (\<lambda>c. c \<noteq> CHR ''>'') (rev v))"

text \<open>The characters \<open>parseInline\<close> sends to \<open>parseStyle\<close>, and the characters
  \<open>parseText\<close> consumes.\<close>

definition isStyleChar :: "char \<Rightarrow> bool" where
  "isStyleChar c = test styleChars [c]"

definition isPlainChar :: "char \<Rightarrow> bool" where
  "isPlainChar c = (\<not> test styleChars [c] \<and> \<not> test layoutChars [c])"

text \<open>The cursor over a token sequence at a position.\<close>

definition bufferAt :: "Token list \<Rightarrow> nat \<Rightarrow> Buffer" where
  "bufferAt toks p = \<lparr>tokens = toks, index = p\<rparr>"

text \<open>The opening marker at the head of a character sequence, the two-character marker
  first; \<^const>\<open>None\<close> when the head is no marker.\<close>

definition opener :: "string \<Rightarrow> string option" where
  "opener cs =
     (case cs of
        c # d # _ \<Rightarrow>
          if c = d \<and> styleTypes [c, c] \<noteq> None then Some [c, c]
          else if styleTypes [c] \<noteq> None then Some [c] else None
      | [c] \<Rightarrow> if styleTypes [c] \<noteq> None then Some [c] else None
      | [] \<Rightarrow> None)"

text \<open>A run of one-character \<open>TEXT\<close> tokens as the lexer produces it for inline content:
  no table delimiter, the last character no style character (the lexer ends every line with
  its newline), and after the run nothing or a token that is not \<open>TEXT\<close>.\<close>

definition textRun :: "string \<Rightarrow> Token list \<Rightarrow> bool" where
  "textRun cs rest =
     (cs \<noteq> [] \<and> \<not> isStyleChar (last cs) \<and> CHR ''|'' \<notin> set cs
      \<and> (rest = [] \<or> tok (hd rest) \<noteq> TEXT))"

text \<open>A parsing function returns a node and leaves the cursor at a position: with enough
  fuel, and then with any more.\<close>

definition returnsAt :: "(nat \<Rightarrow> Buffer \<Rightarrow> Node result) \<Rightarrow> Buffer \<Rightarrow> Node \<Rightarrow> Buffer \<Rightarrow> bool" where
  "returnsAt f b node b' = (\<exists>N. \<forall>n\<ge>N. f n b = Some (Inr node, b'))"

text \<open>The two ways the scan of \<open>parseStyle\<close> ends: the styled node of a marker that was
  closed, or an un-styled \<open>span\<close> whose first child is the literal opener and whose next
  children are those collected so far (more children may follow).\<close>

definition closesStyle :: "string \<Rightarrow> Node \<Rightarrow> bool" where
  "closesStyle start node = (\<exists>ty content. styleTypes start = Some ty \<and> node = StyleNode ty content)"

definition failsOpen :: "string \<Rightarrow> Node list \<Rightarrow> Node \<Rightarrow> bool" where
  "failsOpen start content node =
     (\<exists>scanned. node = StyleNode ''span'' (TextNode start # content @ scanned))"

text \<open>What is shown of the loop of \<open>parseStyle\<close>, of \<open>parseInline\<close> and of \<open>parseStyle\<close> at a
  position of a text run.\<close>

definition loopOK :: "string \<Rightarrow> Token list \<Rightarrow> nat \<Rightarrow> string \<Rightarrow> Node list \<Rightarrow> bool" where
  "loopOK cs rest p start content =
     (\<exists>node q. p \<le> q \<and> q \<le> length cs
        \<and> returnsAt (\<lambda>n. parseStyleLoop n start content)
             (bufferAt (textTokens cs @ rest) p) node (bufferAt (textTokens cs @ rest) q)
        \<and> (closesStyle start node \<or> (q = length cs \<and> failsOpen start content node))
        \<and> (hd start \<notin> set (drop p cs) \<longrightarrow> q = length cs \<and> failsOpen start content node))"

definition inlineOK :: "string \<Rightarrow> Token list \<Rightarrow> nat \<Rightarrow> bool" where
  "inlineOK cs rest p =
     (\<exists>node q. p < q \<and> q \<le> length cs
        \<and> returnsAt parseInline
             (bufferAt (textTokens cs @ rest) p) node (bufferAt (textTokens cs @ rest) q))"

definition styleOK :: "string \<Rightarrow> Token list \<Rightarrow> nat \<Rightarrow> bool" where
  "styleOK cs rest p =
     (\<exists>node q. p < q \<and> q \<le> length cs
        \<and> returnsAt parseStyle
             (bufferAt (textTokens cs @ rest) p) node (bufferAt (textTokens cs @ rest) q)
        \<and> (case opener (drop p cs) of
              None \<Rightarrow> node = TextNode [cs ! p]
            | Some start \<Rightarrow>
                (closesStyle start node \<or> (q = length cs \<and> failsOpen start [] node))
                \<and> (hd start \<notin> set (drop (p + length start) cs)
                     \<longrightarrow> q = length cs \<and> failsOpen start [] node)))"

text \<open>A line of plain text: not blank, no newline, no style character and no table
  delimiter in it, and no structural prefix (indentation, block-quote marker, header marker;
  the list markers are style characters).\<close>

definition plainLine :: "string \<Rightarrow> bool" where
  "plainLine cs =
     (\<not> list_all isWhiteSpace cs \<and> list_all (\<lambda>c. c \<noteq> nl \<and> isPlainChar c) cs
      \<and> hd cs \<noteq> CHR '' '' \<and> hd cs \<noteq> CHR ''>'' \<and> hd cs \<noteq> CHR ''#'')"

section \<open>The lexer, line by line\<close>

lemma split_nl_nonempty: "split_nl s \<noteq> []"
  by (induction s) (auto split: list.splits)

lemma spacesAt_step:
  "p < length cs \<Longrightarrow> cs ! p = CHR '' '' \<Longrightarrow> spacesAt cs p = Suc (spacesAt cs (Suc p))"
  by (simp add: spacesAt_def Cons_nth_drop_Suc[symmetric])

lemma spacesAt_zero:
  "charAt cs p \<noteq> Some (CHR '' '') \<Longrightarrow> spacesAt cs p = 0"
  by (cases "p < length cs") (auto simp: spacesAt_def charAt_def Cons_nth_drop_Suc[symmetric])

lemma countSpaces_eq:
  "countSpaces cs p n lim
     = (n + min (lim - n) (spacesAt cs p), p + min (lim - n) (spacesAt cs p))"
proof (induction cs p n lim rule: countSpaces.induct)
  case (1 cs p n lim)
  show ?case
  proof (cases "charAt cs p = Some (CHR '' '') \<and> n < lim")
    case True
    then have "p < length cs" "cs ! p = CHR '' ''"
      by (auto simp: charAt_def split: if_splits)
    then have "spacesAt cs p = Suc (spacesAt cs (Suc p))"
      by (rule spacesAt_step)
    with True 1 show ?thesis
      by (subst countSpaces.simps) (auto simp: min_def)
  next
    case False
    then have "lim \<le> n \<or> spacesAt cs p = 0"
      using spacesAt_zero by auto
    with False show ?thesis
      by (subst countSpaces.simps) auto
  qed
qed

lemma endLists_snoc: "endLists (ls @ [f]) = closers f @ endLists ls"
  by (subst endLists.simps) (simp add: closers_def)

lemma endLists_eq: "endLists ls = concat (map closers (rev ls))"
  by (induction ls rule: rev_induct) (simp_all add: endLists_snoc, simp add: endLists.simps)

lemma endBlockQuotes_eq:
  "endBlockQuotes n = map (\<lambda>i. newToken END_BLOCK_QUOTE [] (Num i)) (rev [1..<Suc n])"
  by (induction n) simp_all

lemma trim_empty_iff: "trim s = [] \<longleftrightarrow> list_all isWhiteSpace s"
proof -
  have "dropWhile isWhiteSpace (rev (dropWhile isWhiteSpace s)) = [] \<longleftrightarrow> dropWhile isWhiteSpace s = []"
    by (metis dropWhile_eq_Nil_conv rev_is_Nil_conv set_dropWhileD set_rev dropWhile_idem hd_dropWhile dropWhile.simps(1) list.set_sel(1))
  then show ?thesis
    by (simp add: trim_def dropWhile_eq_Nil_conv list_all_iff)
qed

lemma spacesAt_less:
  assumes "p < length cs" "last cs \<noteq> CHR '' ''"
  shows "p + spacesAt cs p < length cs"
proof -
  let ?xs = "drop p cs"
  have ne: "?xs \<noteq> []" using assms by simp
  have "last ?xs = last cs" using assms by simp
  then have "\<not> (\<forall>x\<in>set ?xs. x = CHR '' '')" using ne assms(2) last_in_set by metis
  then have neq: "takeWhile (\<lambda>c. c = CHR '' '') ?xs \<noteq> ?xs"
    by (simp add: takeWhile_eq_all_conv)
  have "length (takeWhile (\<lambda>c. c = CHR '' '') ?xs) \<noteq> length ?xs"
  proof
    assume eq: "length (takeWhile (\<lambda>c. c = CHR '' '') ?xs) = length ?xs"
    have "takeWhile (\<lambda>c. c = CHR '' '') ?xs = take (length (takeWhile (\<lambda>c. c = CHR '' '') ?xs)) ?xs"
      by (rule takeWhile_eq_take)
    with eq have "takeWhile (\<lambda>c. c = CHR '' '') ?xs = ?xs" by simp
    with neq show False by simp
  qed
  moreover have "length (takeWhile (\<lambda>c. c = CHR '' '') ?xs) \<le> length ?xs"
    by (rule length_takeWhile_le)
  ultimately have "length (takeWhile (\<lambda>c. c = CHR '' '') ?xs) < length ?xs"
    by linarith
  then show ?thesis using assms by (simp add: spacesAt_def)
qed

lemma last_nth_eq: "Suc n = length cs \<Longrightarrow> last cs = cs ! n"
  by (cases cs rule: rev_cases) (auto simp: nth_append)

lemma drop_nth: "i < length xs \<Longrightarrow> drop i xs = xs ! i # drop (Suc i) xs"
  by (simp add: Cons_nth_drop_Suc)

lemma scanQuote_props:
  "scanQuote cs p v c = (v', c', p') \<Longrightarrow>
     p \<le> p' \<and> v' = v @ take (p' - p) (drop p cs)
     \<and> c' = c + length (filter (\<lambda>x. x = CHR ''>'') (take (p' - p) (drop p cs)))
     \<and> charAt cs p' \<noteq> Some (CHR ''>'')
     \<and> (p < length cs \<longrightarrow> last cs \<noteq> CHR ''>'' \<longrightarrow> last cs \<noteq> CHR '' '' \<longrightarrow> last cs \<noteq> tab \<longrightarrow> p' < length cs)"
proof (induction cs p v c arbitrary: v' c' p' rule: scanQuote.induct)
  case (1 cs p v count)
  show ?case
  proof (cases "charAt cs p = Some (CHR ''>'')")
    case False
    with "1.prems" show ?thesis by (subst (asm) scanQuote.simps) auto
  next
    case True
    then have p: "p < length cs" "cs ! p = CHR ''>''" by (auto simp: charAt_def split: if_splits)
    show ?thesis
    proof (cases "Suc p < length cs \<and> (cs ! Suc p = CHR '' '' \<or> cs ! Suc p = tab)")
      case A: True
      with True "1.prems" have eq: "scanQuote cs (Suc (Suc p)) (v @ [CHR ''>'', cs ! Suc p]) (Suc count) = (v', c', p')"
        by (subst (asm) scanQuote.simps) auto
      from "1.IH"(1)[OF True A eq] have IH:
        "Suc (Suc p) \<le> p'" "v' = (v @ [CHR ''>'', cs ! Suc p]) @ take (p' - Suc (Suc p)) (drop (Suc (Suc p)) cs)"
        "c' = Suc count + length (filter (\<lambda>x. x = CHR ''>'') (take (p' - Suc (Suc p)) (drop (Suc (Suc p)) cs)))"
        "charAt cs p' \<noteq> Some (CHR ''>'')"
        "Suc (Suc p) < length cs \<longrightarrow> last cs \<noteq> CHR ''>'' \<longrightarrow> last cs \<noteq> CHR '' '' \<longrightarrow> last cs \<noteq> tab \<longrightarrow> p' < length cs"
        by auto
      have d1: "drop p cs = cs ! p # drop (Suc p) cs"
        by (rule drop_nth) (rule p(1))
      have d2: "drop (Suc p) cs = cs ! Suc p # drop (Suc (Suc p)) cs"
        by (rule drop_nth) (use A in blast)
      have d: "drop p cs = CHR ''>'' # cs ! Suc p # drop (Suc (Suc p)) cs"
        using d1 d2 p by simp
      have k: "p' - p = Suc (Suc (p' - Suc (Suc p)))"
        using IH(1) by arith
      have lastc: "Suc (Suc p) = length cs \<Longrightarrow> last cs = cs ! Suc p"
        by (rule last_nth_eq)
      have "p \<le> p'" using IH(1) by arith
      moreover have "v' = v @ take (p' - p) (drop p cs)"
        unfolding d k using IH(2) by simp
      moreover have "c' = count + length (filter (\<lambda>x. x = CHR ''>'') (take (p' - p) (drop p cs)))"
        unfolding d k using IH(3) A by auto
      moreover have "p < length cs \<longrightarrow> last cs \<noteq> CHR ''>'' \<longrightarrow> last cs \<noteq> CHR '' '' \<longrightarrow> last cs \<noteq> tab \<longrightarrow> p' < length cs"
      proof (cases "Suc (Suc p) < length cs")
        case True then show ?thesis using IH(5) by blast
      next
        case False
        with A have "Suc (Suc p) = length cs" by arith
        then have "last cs = cs ! Suc p" by (rule lastc)
        with A show ?thesis by auto
      qed
      ultimately show ?thesis using IH(4) by blast
    next
      case B: False
      with True "1.prems" have eq: "scanQuote cs (Suc p) (v @ [CHR ''>'']) (Suc count) = (v', c', p')"
        by (subst (asm) scanQuote.simps) auto
      from "1.IH"(2)[OF True B eq] have IH:
        "Suc p \<le> p'" "v' = (v @ [CHR ''>'']) @ take (p' - Suc p) (drop (Suc p) cs)"
        "c' = Suc count + length (filter (\<lambda>x. x = CHR ''>'') (take (p' - Suc p) (drop (Suc p) cs)))"
        "charAt cs p' \<noteq> Some (CHR ''>'')"
        "Suc p < length cs \<longrightarrow> last cs \<noteq> CHR ''>'' \<longrightarrow> last cs \<noteq> CHR '' '' \<longrightarrow> last cs \<noteq> tab \<longrightarrow> p' < length cs"
        by auto
      have d1: "drop p cs = cs ! p # drop (Suc p) cs"
        by (rule drop_nth) (rule p(1))
      have d: "drop p cs = CHR ''>'' # drop (Suc p) cs"
        using d1 p by simp
      have k: "p' - p = Suc (p' - Suc p)"
        using IH(1) by arith
      have "p \<le> p'" using IH(1) by arith
      moreover have "v' = v @ take (p' - p) (drop p cs)"
        unfolding d k using IH(2) by simp
      moreover have "c' = count + length (filter (\<lambda>x. x = CHR ''>'') (take (p' - p) (drop p cs)))"
        unfolding d k using IH(3) by auto
      moreover have "p < length cs \<longrightarrow> last cs \<noteq> CHR ''>'' \<longrightarrow> last cs \<noteq> CHR '' '' \<longrightarrow> last cs \<noteq> tab \<longrightarrow> p' < length cs"
      proof (cases "Suc p < length cs")
        case True then show ?thesis using IH(5) by blast
      next
        case False
        with p have "Suc p = length cs" by arith
        then have "last cs = cs ! p" by (rule last_nth_eq)
        with p show ?thesis by auto
      qed
      ultimately show ?thesis using IH(4) by blast
    qed
  qed
qed

lemma spacesAt_le: "p \<le> length cs \<Longrightarrow> p + spacesAt cs p \<le> length cs"
proof -
  assume "p \<le> length cs"
  moreover have "spacesAt cs p \<le> length (drop p cs)"
    unfolding spacesAt_def by (rule length_takeWhile_le)
  ultimately show ?thesis by simp
qed

lemma nonblank_charAt:
  "charAt l p = Some c \<Longrightarrow> \<not> isWhiteSpace c \<Longrightarrow> trim l \<noteq> []"
  by (auto simp: trim_empty_iff charAt_def list_all_iff split: if_splits)

lemma marker_not_space: "isListMarker (Some c) \<Longrightarrow> \<not> isWhiteSpace c"
  by (auto simp: isListMarker_def isWhiteSpace_def)

lemma quote_not_marker: "\<not> isListMarker (Some (CHR ''>''))"
  by (simp add: isListMarker_def)

lemma line_blank:
  assumes "list_all isWhiteSpace (line s)"
  shows "lineResult s =
     (map (\<lambda>i. newToken END_BLOCK_QUOTE [] (Num i)) (rev [1..<Suc (blockQuote s)])
        @ concat (map closers (rev (lists' s)))
        @ [newToken BLANK_LINE [] Undefined], 0, [], 0)"
  using assms
  by (simp add: lineResult_def tokenizeLine_def trim_empty_iff resetContext_def endLists_eq
      endBlockQuotes_eq)

lemma line_code_block:
  assumes nb: "\<not> list_all isWhiteSpace (line s)"
      and ind: "ind = min (indentation s + 4) (spacesAt (line s) 0)"
      and code: "ind = indentation s + 4"
      and pop: "popLists ind (lists' s) = (closed, ls)"
  shows "lineResult s =
     (closed @ [newToken CODE_BLOCK (drop ind (line s)) (Num ind)], blockQuote s, ls, indentation s)"
proof -
  have cs1: "countSpaces (line s) 0 0 (indentation s + 4) = (ind, ind)"
    using ind by (simp add: countSpaces_eq)
  have pop': "popLists (indentation s + 4) (lists' s) = (closed, ls)" using pop code by simp
  show ?thesis
    using nb code
    by (simp add: lineResult_def tokenizeLine_def tokenizeBlock_def Let_def cs1 pop' trim_empty_iff)
qed

lemma line_marker_text:
  assumes ind: "ind = min (indentation s + 4) (spacesAt (line s) 0)"
      and nocode: "ind \<noteq> indentation s + 4"
      and marker: "isListMarker (charAt (line s) ind)"
      and nospace: "charAt (line s) (Suc ind) \<noteq> Some (CHR '' '')"
      and pop: "popLists ind (lists' s) = (closed, ls)"
  shows "lineResult s =
     (closed @ [newToken TEXT [line s ! ind] Undefined] @ textTokens (drop (Suc ind) (line s)),
      blockQuote s, ls, indentation s)"
proof -
  obtain c where c: "charAt (line s) ind = Some c" "isListMarker (Some c)"
    using marker by (cases "charAt (line s) ind") (auto simp: isListMarker_def)
  have nb: "trim (line s) \<noteq> []"
    using c nonblank_charAt marker_not_space by blast
  have cs1: "countSpaces (line s) 0 0 (indentation s + 4) = (ind, ind)"
    using ind by (simp add: countSpaces_eq)
  show ?thesis
    using nb nocode marker nospace
    by (simp add: lineResult_def tokenizeLine_def tokenizeBlock_def Let_def cs1 pop textTokens_def)
qed

lemma line_list_item:
  assumes ind: "ind = min (indentation s + 4) (spacesAt (line s) 0)"
      and nocode: "ind \<noteq> indentation s + 4"
      and marker: "isListMarker (charAt (line s) ind)"
      and space: "charAt (line s) (Suc ind) = Some (CHR '' '')"
      and post: "post = min 5 (spacesAt (line s) (Suc ind))"
      and item: "item = (post - 1) mod 4 + 1"
      and thr: "thr = ind + 1 + item"
      and pop: "popLists ind (lists' s) = (closed, ls)"
  shows "1 \<le> post \<and> post \<le> 5
     \<and> lineResult s =
        (closed
         @ [if ls \<noteq> [] \<and> ind < indent (last ls)
            then newToken END_LIST_ITEM [] (Sibling ind (last ls))
            else newToken LIST [] (Frame \<lparr>anchor = ind, indent = thr\<rparr>)]
         @ [newToken LIST_ITEM (line s ! ind # replicate item (CHR '' ''))
              (Frame \<lparr>anchor = ind, indent = thr\<rparr>)]
         @ (if post = 5 then [newToken CODE_BLOCK (drop (ind + 6) (line s)) (Num (thr + 4))]
            else textTokens (drop (Suc ind + post) (line s))),
         blockQuote s,
         if ls \<noteq> [] \<and> ind < indent (last ls) then ls else ls @ [\<lparr>anchor = ind, indent = thr\<rparr>],
         thr)"
proof -
  obtain c where c: "charAt (line s) ind = Some c" "isListMarker (Some c)"
    using marker by (cases "charAt (line s) ind") (auto simp: isListMarker_def)
  have nb: "trim (line s) \<noteq> []"
    using c nonblank_charAt marker_not_space by blast
  have cs1: "countSpaces (line s) 0 0 (indentation s + 4) = (ind, ind)"
    using ind by (simp add: countSpaces_eq)
  have cs2: "countSpaces (line s) (Suc ind) 0 5 = (post, Suc (ind + post))"
    using post by (simp add: countSpaces_eq)
  have lt: "Suc ind < length (line s)" "line s ! Suc ind = CHR '' ''"
    using space by (auto simp: charAt_def split: if_splits)
  have "spacesAt (line s) (Suc ind) = Suc (spacesAt (line s) (Suc (Suc ind)))"
    using lt by (rule spacesAt_step)
  then have post1: "1 \<le> post" "post \<le> 5" using post by auto
  have "Suc ind + spacesAt (line s) (Suc ind) \<le> length (line s)"
    using lt(1) by (intro spacesAt_le) simp
  then have le: "Suc (ind + post) \<le> length (line s)" using post by auto
  have m: "max (Suc (ind + post)) (length (line s)) = length (line s)"
    using le by simp
  have six: "post = 5 \<Longrightarrow> Suc (ind + post) = ind + 6" by simp
  show ?thesis
    using post1 nb nocode marker space
    by (simp add: lineResult_def tokenizeLine_def tokenizeBlock_def Let_def cs1 cs2 pop m six
        item thr textTokens_def) (simp add: add.commute)
qed

lemma line_block_quote:
  assumes ind: "ind = min (indentation s + 4) (spacesAt (line s) 0)"
      and nocode: "ind \<noteq> indentation s + 4"
      and quote: "charAt (line s) ind = Some (CHR ''>'')"
      and scan: "scanQuote (line s) ind [] 0 = (v, count0, p2)"
      and count: "count = (if count0 < blockQuote s \<and> trim v \<noteq> trim (line s)
                           then blockQuote s else count0)"
      and pop: "popLists ind (lists' s) = (closed, ls)"
  shows "v = take (p2 - ind) (drop ind (line s))
     \<and> count0 = length (filter (\<lambda>c. c = CHR ''>'') v)
     \<and> lineResult s =
        (closed
         @ map (\<lambda>i. newToken END_BLOCK_QUOTE [] (Num i)) (rev [Suc count ..< Suc (blockQuote s)])
         @ map (\<lambda>i. newToken BLOCK_QUOTE (if i = count then v else []) (Num i))
               [Suc (blockQuote s) ..< Suc count]
         @ textTokens (drop p2 (line s)),
         count, ls, indentation s)"
proof -
  have nb: "trim (line s) \<noteq> []"
    using quote by (rule nonblank_charAt) (simp add: isWhiteSpace_def)
  have cs1: "countSpaces (line s) 0 0 (indentation s + 4) = (ind, ind)"
    using ind by (simp add: countSpaces_eq)
  from scanQuote_props[OF scan]
  have v: "v = take (p2 - ind) (drop ind (line s))"
    and c0: "count0 = length (filter (\<lambda>c. c = CHR ''>'') (take (p2 - ind) (drop ind (line s))))"
    by auto
  have tl: "lineResult s =
        (closed
         @ map (\<lambda>i. newToken END_BLOCK_QUOTE [] (Num i)) (rev [Suc count ..< Suc (blockQuote s)])
         @ map (\<lambda>i. newToken BLOCK_QUOTE (if i = count then v else []) (Num i))
               [Suc (blockQuote s) ..< Suc count]
         @ textTokens (drop p2 (line s)),
         count, ls, indentation s)"
    using nb nocode quote quote_not_marker
    by (simp add: lineResult_def tokenizeLine_def tokenizeBlock_def Let_def cs1 pop scan count
        textTokens_def)
  show ?thesis using v c0 tl by simp
qed

lemma line_plain:
  assumes nb: "\<not> list_all isWhiteSpace (line s)"
      and ind: "ind = min (indentation s + 4) (spacesAt (line s) 0)"
      and nocode: "ind \<noteq> indentation s + 4"
      and nomarker: "\<not> isListMarker (charAt (line s) ind)"
      and noquote: "charAt (line s) ind \<noteq> Some (CHR ''>'')"
      and pop: "popLists ind (lists' s) = (closed, ls)"
  shows "lineResult s =
     (closed @ textTokens (drop ind (line s)), blockQuote s, ls, indentation s)"
proof -
  have cs1: "countSpaces (line s) 0 0 (indentation s + 4) = (ind, ind)"
    using ind by (simp add: countSpaces_eq)
  show ?thesis
    using nb nocode nomarker noquote
    by (simp add: lineResult_def tokenizeLine_def tokenizeBlock_def Let_def cs1 pop textTokens_def
        trim_empty_iff)
qed

lemma popLists_props:
  "popLists ind ls0 = (closed, ls) \<Longrightarrow>
     \<exists>k. k \<le> length ls0 \<and> ls = take (length ls0 - k) ls0
       \<and> closed = concat (map closers (take k (rev ls0)))"
proof (induction ind ls0 arbitrary: closed ls rule: popLists.induct)
  case (1 ind ls0)
  show ?case
  proof (cases "ls0 \<noteq> [] \<and> ind < anchor (last ls0)")
    case False
    with "1.prems" have "closed = []" "ls = ls0"
      by (subst (asm) popLists.simps, simp)+
    then show ?thesis by (intro exI[of _ 0]) simp
  next
    case True
    obtain toks rest where r: "popLists ind (butlast ls0) = (toks, rest)"
      by (cases "popLists ind (butlast ls0)")
    from "1.IH"[OF True r] obtain k where k: "k \<le> length (butlast ls0)"
      "rest = take (length (butlast ls0) - k) (butlast ls0)"
      "toks = concat (map closers (take k (rev (butlast ls0))))" by blast
    from "1.prems" True r have cl: "closed = closers (last ls0) @ toks" and ls: "ls = rest"
      by (subst (asm) popLists.simps, simp add: closers_def)+
    obtain xs x where xs: "ls0 = xs @ [x]" using True by (cases ls0 rule: rev_cases) auto
    have "Suc k \<le> length ls0" using k(1) xs by simp
    moreover have "ls = take (length ls0 - Suc k) ls0" using ls k(2) xs by simp
    moreover have "closed = concat (map closers (take (Suc k) (rev ls0)))"
      using cl k(3) xs by simp
    ultimately show ?thesis by blast
  qed
qed

lemma lineResult_cases [case_names blank code marker_text item quote plain]:
  assumes "list_all isWhiteSpace (line s) \<Longrightarrow> P"
    and "\<And>ind closed ls.
          \<lbrakk>\<not> list_all isWhiteSpace (line s);
           ind = min (indentation s + 4) (spacesAt (line s) 0);
           popLists ind (lists' s) = (closed, ls);
           ind = indentation s + 4\<rbrakk> \<Longrightarrow> P"
    and "\<And>ind closed ls.
          \<lbrakk>\<not> list_all isWhiteSpace (line s);
           ind = min (indentation s + 4) (spacesAt (line s) 0);
           popLists ind (lists' s) = (closed, ls);
           ind \<noteq> indentation s + 4; isListMarker (charAt (line s) ind);
           charAt (line s) (Suc ind) \<noteq> Some (CHR '' '')\<rbrakk> \<Longrightarrow> P"
    and "\<And>ind closed ls.
          \<lbrakk>\<not> list_all isWhiteSpace (line s);
           ind = min (indentation s + 4) (spacesAt (line s) 0);
           popLists ind (lists' s) = (closed, ls);
           ind \<noteq> indentation s + 4; isListMarker (charAt (line s) ind);
           charAt (line s) (Suc ind) = Some (CHR '' '')\<rbrakk> \<Longrightarrow> P"
    and "\<And>ind closed ls.
          \<lbrakk>\<not> list_all isWhiteSpace (line s);
           ind = min (indentation s + 4) (spacesAt (line s) 0);
           popLists ind (lists' s) = (closed, ls);
           ind \<noteq> indentation s + 4; charAt (line s) ind = Some (CHR ''>'')\<rbrakk> \<Longrightarrow> P"
    and "\<And>ind closed ls.
          \<lbrakk>\<not> list_all isWhiteSpace (line s);
           ind = min (indentation s + 4) (spacesAt (line s) 0);
           popLists ind (lists' s) = (closed, ls);
           ind \<noteq> indentation s + 4; \<not> isListMarker (charAt (line s) ind);
           charAt (line s) ind \<noteq> Some (CHR ''>'')\<rbrakk> \<Longrightarrow> P"
  shows P
proof -
  define ind where "ind = min (indentation s + 4) (spacesAt (line s) 0)"
  obtain closed ls where pop: "popLists ind (lists' s) = (closed, ls)"
    by (cases "popLists ind (lists' s)")
  show P
    using assms(1) assms(2)[OF _ ind_def pop] assms(3)[OF _ ind_def pop]
      assms(4)[OF _ ind_def pop] assms(5)[OF _ ind_def pop] assms(6)[OF _ ind_def pop]
    by blast
qed

lemma ends_text:
  assumes "p < length l" "last l = nl"
  shows "endsWithNewline (xs @ textTokens (drop p l))"
proof -
  have "drop p l \<noteq> []" using assms by simp
  moreover have "last (drop p l) = nl" using assms by simp
  ultimately show ?thesis by (simp add: endsWithNewline_def textTokens_def last_map)
qed

lemma ends_code:
  assumes "p < length l" "last l = nl"
  shows "endsWithNewline (xs @ [newToken CODE_BLOCK (drop p l) d])"
  using assms by (simp add: endsWithNewline_def newToken_def)

lemma line_ends_with_newline:
  assumes nb: "\<not> list_all isWhiteSpace (piece @ [nl])"
  shows "endsWithNewline (fst (tokenizeLine (s\<lparr>line := piece @ [nl]\<rparr>)))"
proof -
  define l where "l = piece @ [nl]"
  define s0 where "s0 = s\<lparr>line := l\<rparr>"
  have l0: "line s0 = l" by (simp add: s0_def)
  have ll: "last l = nl" "l \<noteq> []" "0 < length l" by (simp_all add: l_def)
  have nbl: "\<not> list_all isWhiteSpace (line s0)" using nb by (simp add: l0 l_def)
  have T: "fst (tokenizeLine s0) = fst (lineResult s0)" by (simp add: lineResult_def)
  have "endsWithNewline (fst (lineResult s0))"
  proof (cases rule: lineResult_cases[of s0])
    case blank
    with nbl show ?thesis by simp
  next
    case (code ind closed ls)
    have "0 + spacesAt l 0 < length l" using ll by (intro spacesAt_less) auto
    then have indlt: "ind < length l" using code(2) by (simp add: l0)
    have "fst (lineResult s0) = closed @ [newToken CODE_BLOCK (drop ind l) (Num ind)]"
      using line_code_block[OF code(1,2,4,3)] by (simp add: l0)
    then show ?thesis by (simp only: ends_code[OF indlt ll(1)])
  next
    case (marker_text ind closed ls)
    have indlt: "ind < length l" using marker_text(5)
      by (auto simp: isListMarker_def charAt_def l0 split: if_splits)
    have lind: "l ! ind \<noteq> nl" using marker_text(5) indlt
      by (auto simp: isListMarker_def charAt_def l0)
    have "Suc ind \<noteq> length l"
    proof
      assume "Suc ind = length l"
      then have "last l = l ! ind" by (rule last_nth_eq)
      with lind ll show False by simp
    qed
    then have sind: "Suc ind < length l" using indlt by arith
    have "fst (lineResult s0) = (closed @ [newToken TEXT [l ! ind] Undefined]) @ textTokens (drop (Suc ind) l)"
      using line_marker_text[OF marker_text(2,4,5,6,3)] by (simp add: l0)
    then show ?thesis by (simp only: ends_text[OF sind ll(1)])
  next
    case (item ind closed ls)
    define post where "post = min 5 (spacesAt l (Suc ind))"
    define itm where "itm = (post - 1) mod 4 + 1"
    define thr where "thr = ind + 1 + itm"
    have sind: "Suc ind < length l" using item(6) by (auto simp: charAt_def l0 split: if_splits)
    have "Suc ind + spacesAt l (Suc ind) < length l"
      using sind ll by (intro spacesAt_less) auto
    then have p3: "Suc ind + post < length l" by (simp add: post_def)
    let ?pre = "closed
         @ [if ls \<noteq> [] \<and> ind < indent (last ls)
            then newToken END_LIST_ITEM [] (Sibling ind (last ls))
            else newToken LIST [] (Frame \<lparr>anchor = ind, indent = thr\<rparr>)]
         @ [newToken LIST_ITEM (l ! ind # replicate itm (CHR '' ''))
              (Frame \<lparr>anchor = ind, indent = thr\<rparr>)]"
    have L: "fst (lineResult s0) = ?pre
         @ (if post = 5 then [newToken CODE_BLOCK (drop (ind + 6) l) (Num (thr + 4))]
            else textTokens (drop (Suc ind + post) l))"
      using line_list_item[OF item(2,4,5,6) _ _ _ item(3), of post itm thr]
      by (simp add: l0 post_def itm_def thr_def)
    show ?thesis
    proof (cases "post = 5")
      case True
      then have six: "ind + 6 < length l" using p3 by simp
      have "fst (lineResult s0) = ?pre @ [newToken CODE_BLOCK (drop (ind + 6) l) (Num (thr + 4))]"
        using L True by simp
      then show ?thesis by (simp only: ends_code[OF six ll(1), of ?pre])
    next
      case False
      have "fst (lineResult s0) = ?pre @ textTokens (drop (Suc ind + post) l)" using L False by simp
      then show ?thesis by (simp only: ends_text[OF p3 ll(1), of ?pre])
    qed
  next
    case (quote ind closed ls)
    have indlt: "ind < length l" using quote(5) by (auto simp: charAt_def l0 split: if_splits)
    obtain v count0 p2 where scan: "scanQuote (line s0) ind [] 0 = (v, count0, p2)"
      by (cases "scanQuote (line s0) ind [] 0")
    from scanQuote_props[OF scan] indlt ll have p2: "p2 < length l" by (auto simp: l0)
    define count where "count = (if count0 < blockQuote s0 \<and> trim v \<noteq> trim (line s0)
                       then blockQuote s0 else count0)"
    let ?pre = "closed
       @ map (\<lambda>i. newToken END_BLOCK_QUOTE [] (Num i)) (rev [Suc count ..< Suc (blockQuote s0)])
       @ map (\<lambda>i. newToken BLOCK_QUOTE (if i = count then v else []) (Num i))
           [Suc (blockQuote s0) ..< Suc count]"
    have "fst (lineResult s0) = ?pre @ textTokens (drop p2 l)"
      using line_block_quote[OF quote(2,4,5) scan count_def quote(3)] by (simp add: l0)
    then show ?thesis by (simp only: ends_text[OF p2 ll(1), of ?pre])
  next
    case (plain ind closed ls)
    have "0 + spacesAt l 0 < length l" using ll by (intro spacesAt_less) auto
    then have indlt: "ind < length l" using plain(2) by (simp add: l0)
    have "fst (lineResult s0) = closed @ textTokens (drop ind l)"
      using line_plain[OF plain(1,2,4,5,6,3)] by (simp add: l0)
    then show ?thesis by (simp only: ends_text[OF indlt ll(1), of closed])
  qed
  then show ?thesis by (simp add: lineResult_def s0_def l_def)
qed

lemma nested_append:
  "nested st (a @ b) = (case nested st a of None \<Rightarrow> None | Some st' \<Rightarrow> nested st' b)"
  by (induction a arbitrary: st) (auto split: option.splits list.splits)

lemma nested_listClosers: "nested (listStack (k + m)) (listClosers k) = Some (listStack m)"
  by (induction k) (simp_all add: listStack_def listClosers_def isOpener_def)

lemma nested_quoteClosers:
  "nested (replicate (e + m) BLOCK_QUOTE) (replicate e END_BLOCK_QUOTE) = Some (replicate m BLOCK_QUOTE)"
  by (induction e) (simp_all add: isOpener_def)

lemma nested_quoteOpeners:
  "nested st (replicate n BLOCK_QUOTE) = Some (replicate n BLOCK_QUOTE @ st)"
  by (induction n arbitrary: st) (simp_all add: isOpener_def replicate_app_Cons_same)

lemma kinds_textTokens [simp]: "map tok (textTokens cs) = replicate (length cs) TEXT"
  by (induction cs) (simp_all add: textTokens_def newToken_def)

lemma kinds_closers: "map tok (concat (map closers fs)) = listClosers (length fs)"
  by (induction fs) (simp_all add: closers_def listClosers_def newToken_def)

lemma popLists_kinds:
  assumes "popLists ind ls0 = (closed, ls)"
  shows "\<exists>k. k \<le> length ls0 \<and> length ls = length ls0 - k \<and> map tok closed = listClosers k
      \<and> (ls = [] \<longleftrightarrow> length ls0 = k)"
proof -
  from popLists_props[OF assms] obtain k where k: "k \<le> length ls0"
    "ls = take (length ls0 - k) ls0" "closed = concat (map closers (take k (rev ls0)))" by blast
  have "map tok closed = listClosers k" using k(1,3) by (simp add: kinds_closers)
  moreover have "length ls = length ls0 - k" using k by simp
  moreover have "ls = [] \<longleftrightarrow> length ls0 = k" using k by auto
  ultimately show ?thesis using k(1) by blast
qed

lemma filter_listClosers [simp]:
  "filter isListTok (listClosers k) = listClosers k" "filter isQuoteTok (listClosers k) = []"
  by (induction k) (simp_all add: listClosers_def isListTok_def isQuoteTok_def)

lemma filter_text [simp]:
  "filter isListTok (replicate n TEXT) = []" "filter isQuoteTok (replicate n TEXT) = []"
  by (simp_all add: isListTok_def isQuoteTok_def)

lemma lineResultD:
  "lineResult s = (T, b, l, i) \<Longrightarrow>
     fst (tokenizeLine s) = T \<and> blockQuote (snd (tokenizeLine s)) = b
     \<and> lists' (snd (tokenizeLine s)) = l \<and> indentation (snd (tokenizeLine s)) = i"
  by (simp add: lineResult_def)

lemma kinds_const [simp]:
  "map tok (map (\<lambda>i. newToken k (v i) (d i)) xs) = replicate (length xs) k"
  by (induction xs) (simp_all add: newToken_def)

lemma kinds_const_comp [simp]:
  "map (tok \<circ> (\<lambda>i. newToken k (v i) (d i))) xs = replicate (length xs) k"
  by (induction xs) (simp_all add: newToken_def)

lemma tok_newToken [simp]: "tok (newToken k v d) = k"
  by (simp add: newToken_def)

lemma filter_replicate_if:
  "filter P (replicate n x) = (if P x then replicate n x else [])"
  by (induction n) simp_all

lemma nested_quotes_step:
  "nested (replicate bq BLOCK_QUOTE)
     (replicate (bq - c) END_BLOCK_QUOTE @ replicate (c - bq) BLOCK_QUOTE)
   = Some (replicate c BLOCK_QUOTE)"
proof (cases "c \<le> bq")
  case True
  then have "bq = (bq - c) + c" by simp
  then have "nested (replicate bq BLOCK_QUOTE) (replicate (bq - c) END_BLOCK_QUOTE)
      = Some (replicate c BLOCK_QUOTE)"
    using nested_quoteClosers[of "bq - c" c] by simp
  with True show ?thesis by (simp add: nested_append)
next
  case False
  then have "bq - c = 0" by simp
  moreover have "replicate (c - bq) BLOCK_QUOTE @ replicate bq BLOCK_QUOTE = replicate c BLOCK_QUOTE"
    using False by (simp add: replicate_add[symmetric])
  ultimately show ?thesis by (simp add: nested_quoteOpeners)
qed

lemma nested_lists_close:
  "k \<le> n \<Longrightarrow> nested (listStack n) (listClosers k) = Some (listStack (n - k))"
  using nested_listClosers[of k "n - k"] by simp

lemma listStack_Suc: "listStack (Suc m) = LIST_ITEM # LIST # listStack m"
  by (simp add: listStack_def)

lemma nested_lists_sibling:
  "k < n \<Longrightarrow> nested (listStack n) (listClosers k @ [END_LIST_ITEM, LIST_ITEM]) = Some (listStack (n - k))"
proof -
  assume "k < n"
  then obtain m where m: "n - k = Suc m" by (metis Suc_diff_Suc)
  with \<open>k < n\<close> show ?thesis
    by (simp add: nested_append nested_lists_close listStack_Suc isOpener_def)
qed

lemma nested_lists_new:
  "k \<le> n \<Longrightarrow> nested (listStack n) (listClosers k @ [LIST, LIST_ITEM]) = Some (listStack (Suc (n - k)))"
  by (simp add: nested_append nested_lists_close listStack_Suc isOpener_def)

lemma line_nested:
  "nested (replicate (blockQuote s) BLOCK_QUOTE)
      (filter isQuoteTok (map tok (fst (tokenizeLine s))))
     = Some (replicate (blockQuote (snd (tokenizeLine s))) BLOCK_QUOTE)
   \<and> nested (listStack (length (lists' s)))
      (filter isListTok (map tok (fst (tokenizeLine s))))
     = Some (listStack (length (lists' (snd (tokenizeLine s)))))"
proof (cases rule: lineResult_cases[of s])
  case blank
  from lineResultD[OF line_blank[OF blank]]
  have T: "fst (tokenizeLine s) = map (\<lambda>i. newToken END_BLOCK_QUOTE [] (Num i)) (rev [1..<Suc (blockQuote s)])
        @ concat (map closers (rev (lists' s))) @ [newToken BLANK_LINE [] Undefined]"
    and st: "blockQuote (snd (tokenizeLine s)) = 0" "lists' (snd (tokenizeLine s)) = []"
    by auto
  have K: "map tok (fst (tokenizeLine s))
      = replicate (blockQuote s) END_BLOCK_QUOTE @ listClosers (length (lists' s)) @ [BLANK_LINE]"
    unfolding T by (simp add: kinds_closers del: upt_Suc)
  show ?thesis
    unfolding K st
    using nested_quoteClosers[of "blockQuote s" 0] nested_listClosers[of "length (lists' s)" 0]
    by (simp add: filter_replicate_if isQuoteTok_def isListTok_def listStack_def)
next
  case (code ind closed ls)
  from popLists_kinds[OF code(3)] obtain k where k: "k \<le> length (lists' s)"
    "length ls = length (lists' s) - k" "map tok closed = listClosers k" by blast
  from lineResultD[OF line_code_block[OF code(1,2,4,3)]]
  have T: "fst (tokenizeLine s) = closed @ [newToken CODE_BLOCK (drop ind (line s)) (Num ind)]"
    and st: "blockQuote (snd (tokenizeLine s)) = blockQuote s" "lists' (snd (tokenizeLine s)) = ls"
    by auto
  have K: "map tok (fst (tokenizeLine s)) = listClosers k @ [CODE_BLOCK]"
    unfolding T by (simp add: k)
  show ?thesis
    unfolding K st using k(1,2)
    by (simp add: isQuoteTok_def isListTok_def nested_lists_close)
next
  case (marker_text ind closed ls)
  from popLists_kinds[OF marker_text(3)] obtain k where k: "k \<le> length (lists' s)"
    "length ls = length (lists' s) - k" "map tok closed = listClosers k" by blast
  from lineResultD[OF line_marker_text[OF marker_text(2,4,5,6,3)]]
  have T: "fst (tokenizeLine s) = closed @ [newToken TEXT [line s ! ind] Undefined]
        @ textTokens (drop (Suc ind) (line s))"
    and st: "blockQuote (snd (tokenizeLine s)) = blockQuote s" "lists' (snd (tokenizeLine s)) = ls"
    by auto
  have K: "map tok (fst (tokenizeLine s))
      = listClosers k @ [TEXT] @ replicate (length (line s) - Suc ind) TEXT"
    unfolding T by (simp add: k)
  show ?thesis
    unfolding K st using k(1,2)
    by (simp add: isQuoteTok_def isListTok_def nested_lists_close)
next
  case (item ind closed ls)
  from popLists_kinds[OF item(3)] obtain k where k: "k \<le> length (lists' s)"
    "length ls = length (lists' s) - k" "map tok closed = listClosers k"
    "ls = [] \<longleftrightarrow> length (lists' s) = k" by blast
  define post where "post = min 5 (spacesAt (line s) (Suc ind))"
  define itm where "itm = (post - 1) mod 4 + 1"
  define thr where "thr = ind + 1 + itm"
  define sib where "sib \<longleftrightarrow> ls \<noteq> [] \<and> ind < indent (last ls)"
  from line_list_item[OF item(2,4,5,6) post_def itm_def thr_def item(3)]
  have "lineResult s =
        (closed
         @ [if sib then newToken END_LIST_ITEM [] (Sibling ind (last ls))
            else newToken LIST [] (Frame \<lparr>anchor = ind, indent = thr\<rparr>)]
         @ [newToken LIST_ITEM (line s ! ind # replicate itm (CHR '' ''))
              (Frame \<lparr>anchor = ind, indent = thr\<rparr>)]
         @ (if post = 5 then [newToken CODE_BLOCK (drop (ind + 6) (line s)) (Num (thr + 4))]
            else textTokens (drop (Suc ind + post) (line s))),
         blockQuote s,
         if sib then ls else ls @ [\<lparr>anchor = ind, indent = thr\<rparr>],
         thr)"
    by (simp add: sib_def)
  from lineResultD[OF this]
  have T: "fst (tokenizeLine s) = closed
         @ [if sib then newToken END_LIST_ITEM [] (Sibling ind (last ls))
            else newToken LIST [] (Frame \<lparr>anchor = ind, indent = thr\<rparr>)]
         @ [newToken LIST_ITEM (line s ! ind # replicate itm (CHR '' ''))
              (Frame \<lparr>anchor = ind, indent = thr\<rparr>)]
         @ (if post = 5 then [newToken CODE_BLOCK (drop (ind + 6) (line s)) (Num (thr + 4))]
            else textTokens (drop (Suc ind + post) (line s)))"
    and st: "blockQuote (snd (tokenizeLine s)) = blockQuote s"
      "lists' (snd (tokenizeLine s)) = (if sib then ls else ls @ [\<lparr>anchor = ind, indent = thr\<rparr>])"
    by auto
  have Kq: "filter isQuoteTok (map tok (fst (tokenizeLine s))) = []"
    unfolding T by (simp add: k isQuoteTok_def)
  have Kl: "filter isListTok (map tok (fst (tokenizeLine s)))
      = listClosers k @ (if sib then [END_LIST_ITEM, LIST_ITEM] else [LIST, LIST_ITEM])"
    unfolding T by (simp add: k isListTok_def)
  show ?thesis
  proof (cases sib)
    case True
    then have "k < length (lists' s)" using k(1,4) by (auto simp: sib_def)
    then show ?thesis unfolding Kq Kl st using True k(2)
      by (simp add: nested_lists_sibling)
  next
    case False
    then show ?thesis unfolding Kq Kl st using k(1,2)
      by (simp add: nested_lists_new)
  qed
next
  case (quote ind closed ls)
  from popLists_kinds[OF quote(3)] obtain k where k: "k \<le> length (lists' s)"
    "length ls = length (lists' s) - k" "map tok closed = listClosers k" by blast
  obtain v count0 p2 where scan: "scanQuote (line s) ind [] 0 = (v, count0, p2)"
    by (cases "scanQuote (line s) ind [] 0")
  define count where "count = (if count0 < blockQuote s \<and> trim v \<noteq> trim (line s)
                     then blockQuote s else count0)"
  from line_block_quote[OF quote(2,4,5) scan count_def quote(3)]
  have "lineResult s =
        (closed
         @ map (\<lambda>i. newToken END_BLOCK_QUOTE [] (Num i)) (rev [Suc count ..< Suc (blockQuote s)])
         @ map (\<lambda>i. newToken BLOCK_QUOTE (if i = count then v else []) (Num i))
               [Suc (blockQuote s) ..< Suc count]
         @ textTokens (drop p2 (line s)),
         count, ls, indentation s)" by simp
  from lineResultD[OF this]
  have T: "fst (tokenizeLine s) = closed
         @ map (\<lambda>i. newToken END_BLOCK_QUOTE [] (Num i)) (rev [Suc count ..< Suc (blockQuote s)])
         @ map (\<lambda>i. newToken BLOCK_QUOTE (if i = count then v else []) (Num i))
               [Suc (blockQuote s) ..< Suc count]
         @ textTokens (drop p2 (line s))"
    and st: "blockQuote (snd (tokenizeLine s)) = count" "lists' (snd (tokenizeLine s)) = ls"
    by auto
  have K: "map tok (fst (tokenizeLine s))
      = listClosers k @ replicate (blockQuote s - count) END_BLOCK_QUOTE
        @ replicate (count - blockQuote s) BLOCK_QUOTE @ replicate (length (line s) - p2) TEXT"
    unfolding T by (simp add: k del: upt_Suc)
  show ?thesis
    unfolding K st using k(1,2) nested_quotes_step[of "blockQuote s" count]
    by (simp add: filter_replicate_if isQuoteTok_def isListTok_def nested_lists_close)
next
  case (plain ind closed ls)
  from popLists_kinds[OF plain(3)] obtain k where k: "k \<le> length (lists' s)"
    "length ls = length (lists' s) - k" "map tok closed = listClosers k" by blast
  from lineResultD[OF line_plain[OF plain(1,2,4,5,6,3)]]
  have T: "fst (tokenizeLine s) = closed @ textTokens (drop ind (line s))"
    and st: "blockQuote (snd (tokenizeLine s)) = blockQuote s" "lists' (snd (tokenizeLine s)) = ls"
    by auto
  have K: "map tok (fst (tokenizeLine s)) = listClosers k @ replicate (length (line s) - ind) TEXT"
    unfolding T by (simp add: k)
  show ?thesis
    unfolding K st using k(1,2)
    by (simp add: isQuoteTok_def isListTok_def nested_lists_close)
qed

lemma tokenizeLines_nested:
  "nested (replicate (blockQuote s) BLOCK_QUOTE)
      (filter isQuoteTok (map tok (fst (tokenizeLines ls s))))
     = Some (replicate (blockQuote (snd (tokenizeLines ls s))) BLOCK_QUOTE)
   \<and> nested (listStack (length (lists' s)))
      (filter isListTok (map tok (fst (tokenizeLines ls s))))
     = Some (listStack (length (lists' (snd (tokenizeLines ls s)))))"
proof (induction ls arbitrary: s)
  case Nil
  show ?case by simp
next
  case (Cons l ls)
  let ?s0 = "s\<lparr>line := l\<rparr>"
  let ?s1 = "snd (tokenizeLine ?s0)"
  have T: "fst (tokenizeLines (l # ls) s) = fst (tokenizeLine ?s0) @ fst (tokenizeLines ls ?s1)"
    and S: "snd (tokenizeLines (l # ls) s) = snd (tokenizeLines ls ?s1)"
    by (simp_all add: split_def Let_def)
  from line_nested[of ?s0] Cons.IH[of ?s1]
  show ?case unfolding T S by (simp add: nested_append)
qed

lemma kinds_endBlockQuotes: "map tok (endBlockQuotes n) = replicate n END_BLOCK_QUOTE"
  by (induction n) (simp_all add: replicate_append_same)

lemma kinds_endLists: "map tok (endLists ls) = listClosers (length ls)"
  by (simp add: endLists_eq kinds_closers)

lemma tokenizeFile_nested:
  assumes "blockQuote s = 0" "lists' s = []"
  shows "nested [] (filter isQuoteTok (map tok (fst (tokenizeFile s)))) = Some []
       \<and> nested [] (filter isListTok (map tok (fst (tokenizeFile s)))) = Some []"
proof -
  let ?s1 = "snd (tokenizeLines (lines s) s)"
  have T: "fst (tokenizeFile s) = fst (tokenizeLines (lines s) s)
       @ endBlockQuotes (blockQuote ?s1) @ endLists (lists' ?s1)"
    by (simp add: tokenizeFile_def resetContext_def split_def Let_def)
  from tokenizeLines_nested[of s "lines s"] assms
  have 1: "nested [] (filter isQuoteTok (map tok (fst (tokenizeLines (lines s) s))))
       = Some (replicate (blockQuote ?s1) BLOCK_QUOTE)"
    and 2: "nested [] (filter isListTok (map tok (fst (tokenizeLines (lines s) s))))
       = Some (listStack (length (lists' ?s1)))"
    by (simp_all add: listStack_def)
  show ?thesis
    unfolding T
    using 1 2 nested_quoteClosers[of "blockQuote ?s1" 0] nested_listClosers[of "length (lists' ?s1)" 0]
    by (simp add: nested_append kinds_endBlockQuotes kinds_endLists filter_replicate_if
        isQuoteTok_def isListTok_def listStack_def)
qed

lemma kinds_filter: "map tok (filter (\<lambda>t. P (tok t)) ts) = filter P (map tok ts)"
  by (induction ts) simp_all

lemma nested_counts:
  "nested st ks = Some st' \<Longrightarrow>
     count_list st BLOCK_QUOTE + count_list ks BLOCK_QUOTE
       = count_list ks END_BLOCK_QUOTE + count_list st' BLOCK_QUOTE
   \<and> count_list st LIST + count_list ks LIST
       = count_list ks END_LIST + count_list st' LIST
   \<and> count_list st LIST_ITEM + count_list ks LIST_ITEM
       = count_list ks END_LIST_ITEM + count_list st' LIST_ITEM"
proof (induction ks arbitrary: st)
  case Nil
  then show ?case by simp
next
  case (Cons k ks)
  show ?case
  proof (cases "isOpener k")
    case True
    with Cons.prems have "nested (k # st) ks = Some st'" by simp
    from Cons.IH[OF this] True show ?thesis by (auto simp: isOpener_def)
  next
    case False
    show ?thesis
    proof (cases "openerOf k")
      case None
      with False Cons.prems have "nested st ks = Some st'" by simp
      from Cons.IH[OF this] False None show ?thesis
        by (cases k) (auto simp: isOpener_def)
    next
      case (Some opn)
      with False Cons.prems obtain st0 where st: "st = opn # st0" "nested st0 ks = Some st'"
        by (cases st) (auto split: if_splits)
      from Cons.IH[OF st(2)] Some st(1) show ?thesis
        by (cases k) auto
    qed
  qed
qed

lemma count_list_filter:
  "count_list (filter P ks) k = (if P k then count_list ks k else 0)"
  by (induction ks) auto

lemma countTok_kinds: "countTok k ts = count_list (map tok ts) k"
  by (induction ts) (simp_all add: countTok_def)

section \<open>Further lemmas\<close>

lemma contributions_concat:
  "fst (tokenizeLines ls s) = concat (contributions ls s)"
  by (induction ls arbitrary: s) (simp_all add: split_def Let_def)

lemma contributions_end:
  "list_all (\<lambda>l. \<exists>piece. l = piece @ [nl]) ls \<Longrightarrow>
   list_all2 (\<lambda>l toks. list_all isWhiteSpace l \<or> endsWithNewline toks) ls (contributions ls s)"
proof (induction ls arbitrary: s)
  case Nil
  show ?case by simp
next
  case (Cons l ls)
  then obtain piece where l: "l = piece @ [nl]" by auto
  have "list_all isWhiteSpace l \<or> endsWithNewline (fst (tokenizeLine (s\<lparr>line := l\<rparr>)))"
    unfolding l using line_ends_with_newline[of piece s] by blast
  moreover have "list_all2 (\<lambda>l toks. list_all isWhiteSpace l \<or> endsWithNewline toks) ls
      (contributions ls (snd (tokenizeLine (s\<lparr>line := l\<rparr>))))"
    using Cons by simp
  ultimately show ?case by simp
qed

lemma styleTypes_double:
  "styleTypes [c, c] \<noteq> None \<Longrightarrow> test styleChars [c]"
  by (auto simp: styleTypes_def styleChars_def split: if_splits)

section \<open>The inline parser on a run of text tokens\<close>

text \<open>The cursor over a run of \<open>TEXT\<close> tokens, and \<open>parseText\<close> on it.\<close>

lemma newBuffer_bufferAt: "newBuffer toks = bufferAt toks 0"
  by (simp add: newBuffer_def bufferAt_def)

lemma peek_text:
  "p < length cs \<Longrightarrow>
     peek (bufferAt (textTokens cs @ rest) p) = Some (newToken TEXT [cs ! p] Undefined)"
  by (simp add: peek_def bufferAt_def textTokens_def nth_append)

lemma peek_end:
  "rest = [] \<or> tok (hd rest) \<noteq> TEXT \<Longrightarrow>
     (case peek (bufferAt (textTokens cs @ rest) (length cs)) of
        None \<Rightarrow> True | Some t \<Rightarrow> tok t \<noteq> TEXT)"
  by (cases rest) (auto simp: peek_def bufferAt_def textTokens_def nth_append)

lemma next_tok_bufferAt:
  "next_tok (bufferAt toks p) = (peek (bufferAt toks p), bufferAt toks (Suc p))"
  by (simp add: next_tok_def peek_def bufferAt_def)

lemma hasNext_bufferAt: "hasNext (bufferAt toks p) = (p < length toks)"
  by (simp add: hasNext_def bufferAt_def)

lemma parseTextLoop_text:
  assumes "rest = [] \<or> tok (hd rest) \<noteq> TEXT"
  shows "p \<le> length cs \<Longrightarrow>
     parseTextLoop (bufferAt (textTokens cs @ rest) p) acc
       = (acc @ takeWhile isPlainChar (drop p cs),
          bufferAt (textTokens cs @ rest) (p + length (takeWhile isPlainChar (drop p cs))))"
proof (induction "length cs - p" arbitrary: p acc)
  case 0
  then have p: "p = length cs" by simp
  from peek_end[OF assms, of cs] show ?case
    unfolding p by (subst parseTextLoop.simps) (auto split: option.splits)
next
  case (Suc k)
  then have p: "p < length cs" by simp
  have d: "drop p cs = cs ! p # drop (Suc p) cs" using p by (rule drop_nth)
  show ?case
  proof (cases "isPlainChar (cs ! p)")
    case True
    have "k = length cs - Suc p" using Suc.hyps(2) by simp
    from Suc.hyps(1)[OF this, of "acc @ [cs ! p]"] p
    have IH: "parseTextLoop (bufferAt (textTokens cs @ rest) (Suc p)) (acc @ [cs ! p])
       = ((acc @ [cs ! p]) @ takeWhile isPlainChar (drop (Suc p) cs),
          bufferAt (textTokens cs @ rest) (Suc p + length (takeWhile isPlainChar (drop (Suc p) cs))))"
      by simp
    show ?thesis
      using True IH
      by (subst parseTextLoop.simps)
         (simp add: peek_text[OF p] next_tok_bufferAt d isPlainChar_def newToken_def)
  next
    case False
    then show ?thesis
      by (subst parseTextLoop.simps)
         (auto simp add: peek_text[OF p] d isPlainChar_def newToken_def)
  qed
qed

lemma parseText_text:
  assumes "rest = [] \<or> tok (hd rest) \<noteq> TEXT" "p \<le> length cs"
  shows "parseText (bufferAt (textTokens cs @ rest) p)
       = (TextNode (takeWhile isPlainChar (drop p cs)),
          bufferAt (textTokens cs @ rest) (p + length (takeWhile isPlainChar (drop p cs))))"
  using parseTextLoop_text[OF assms, of "[]"] by (simp add: parseText_def)

text \<open>A plain line: its tokens, and the document parsed from them.\<close>

lemma split_nl_single: "nl \<notin> set cs \<Longrightarrow> split_nl cs = [cs]"
  by (induction cs) auto

lemma marker_is_style: "isListMarker (Some c) \<Longrightarrow> test styleChars [c]"
  by (auto simp: isListMarker_def styleChars_def)

lemma takeWhile_all: "list_all P xs \<Longrightarrow> takeWhile P xs = xs"
  by (induction xs) auto

lemma tokenize_plain_line:
  assumes nb: "\<not> list_all isWhiteSpace cs"
      and plain: "list_all (\<lambda>c. c \<noteq> nl \<and> isPlainChar c) cs"
      and sp: "hd cs \<noteq> CHR '' ''" and gt: "hd cs \<noteq> CHR ''>''"
  shows "tokenize cs = textTokens (cs @ [nl])"
proof -
  from nb obtain c cs' where cs: "cs = c # cs'" by (cases cs) auto
  define l where "l = cs @ [nl]"
  define s0 where "s0 = newLexer cs\<lparr>line := l\<rparr>"
  have nonl: "nl \<notin> set cs" using plain by (auto simp: list_all_iff)
  have lines: "lines (newLexer cs) = [l]"
    by (simp add: newLexer_def split_nl_single[OF nonl] l_def)
  have c0: "charAt l 0 = Some c" by (simp add: charAt_def l_def cs)
  have hd: "c \<noteq> CHR '' ''" "c \<noteq> CHR ''>''" using sp gt cs by auto
  have pl: "isPlainChar c" using plain cs by simp
  have f: "line s0 = l" "indentation s0 = 0" "lists' s0 = []" "blockQuote s0 = 0"
    by (simp_all add: s0_def newLexer_def)
  have sa: "spacesAt l 0 = 0" using hd c0 by (intro spacesAt_zero) simp
  have 1: "\<not> list_all isWhiteSpace (line s0)" using nb by (simp add: f l_def)
  have 2: "0 = min (indentation s0 + 4) (spacesAt (line s0) 0)" by (simp add: f sa)
  have 3: "0 \<noteq> indentation s0 + 4" by (simp add: f)
  have 4: "\<not> isListMarker (charAt (line s0) 0)"
    using marker_is_style[of c] pl by (auto simp: f c0 isPlainChar_def)
  have 5: "charAt (line s0) 0 \<noteq> Some (CHR ''>'')" using hd by (simp add: f c0)
  have 6: "popLists 0 (lists' s0) = ([], [])" by (simp add: f popLists.simps)
  from lineResultD[OF line_plain[OF 1 2 3 4 5 6]]
  have T: "fst (tokenizeLine s0) = textTokens l"
    and st: "blockQuote (snd (tokenizeLine s0)) = 0" "lists' (snd (tokenizeLine s0)) = []"
    by (simp_all add: f)
  have TL: "tokenizeLines (lines (newLexer cs)) (newLexer cs)
      = (fst (tokenizeLine s0), snd (tokenizeLine s0))"
    unfolding lines s0_def by (simp add: split_def)
  have "fst (tokenizeFile (newLexer cs))
      = fst (tokenizeLine s0) @ endBlockQuotes (blockQuote (snd (tokenizeLine s0)))
        @ endLists (lists' (snd (tokenizeLine s0)))"
    unfolding tokenizeFile_def TL by (simp add: resetContext_def split_def Let_def)
  then show ?thesis
    unfolding tokenize_def T st by (simp add: endLists.simps l_def)
qed

lemma parse_plain_tokens:
  assumes plain: "list_all isPlainChar cs"
      and ne: "cs \<noteq> []" and h1: "hd cs \<noteq> nl" and h2: "hd cs \<noteq> CHR ''#''"
  shows "parse (n + 4) (textTokens cs)
     = Some (Inr (DocumentNode [ParagraphNode [TextNode cs]]))"
proof -
  let ?T = "textTokens cs"
  have len: "0 < length cs" using ne by simp
  have pk: "peek (bufferAt ?T 0) = Some (newToken TEXT [hd cs] Undefined)"
    using peek_text[OF len, of "[]"] ne by (simp add: hd_conv_nth)
  have c: "isPlainChar (hd cs)" using plain ne by (cases cs) auto
  have pt: "parseText (bufferAt ?T 0) = (TextNode cs, bufferAt ?T (length cs))"
    using parseText_text[of "[]" 0 cs] takeWhile_all[OF plain] by simp
  have pe: "peek (bufferAt ?T (length cs)) = None"
    by (simp add: peek_def bufferAt_def textTokens_def)
  have hn: "hasNext (bufferAt ?T 0)" "\<not> hasNext (bufferAt ?T (length cs))"
    using len by (simp_all add: hasNext_bufferAt textTokens_def)
  have inl: "parseInline (Suc n) (bufferAt ?T 0) = Some (Inr (TextNode cs), bufferAt ?T (length cs))"
    using c by (simp add: pk pt isPlainChar_def newToken_def)
  have par: "parseParagraph (Suc (Suc n)) (bufferAt ?T 0)
      = Some (Inr (ParagraphNode [TextNode cs]), bufferAt ?T (length cs))"
    using h1 by (simp add: parseParagraph_def pk pe inl newToken_def del: parseInline.simps)
  have blk: "parseBlock (Suc (Suc (Suc n))) (bufferAt ?T 0)
      = Some (Inr (ParagraphNode [TextNode cs]), bufferAt ?T (length cs))"
    using h1 h2 c
    by (simp add: pk par newToken_def isPlainChar_def layoutChars_def Let_def)
  have "parseDocument (Suc (Suc (Suc (Suc n)))) (bufferAt ?T 0)
      = Some (Inr (DocumentNode [ParagraphNode [TextNode cs]]), bufferAt ?T (length cs))"
    by (simp add: parseDocument_def hn blk del: parseBlock.simps)
  then show ?thesis
    by (simp add: parse_def newBuffer_bufferAt numeral_eq_Suc del: parseDocumentLoop.simps)
qed

lemma html_plain_paragraph:
  "html (DocumentNode [ParagraphNode [TextNode t]]) = ''<p>'' @ t @ ''</p>''"
  by simp

text \<open>The equations of \<open>parseStyle\<close> and of its loop, case by case.\<close>

lemma styleTypes_cases:
  "styleTypes s \<noteq> None \<Longrightarrow> \<exists>c. (s = [c] \<or> s = [c, c]) \<and> isStyleChar c"
  by (auto simp: styleTypes_def isStyleChar_def styleChars_def split: if_splits)

lemma styleTypes_pair: "styleTypes [c, d] \<noteq> None \<Longrightarrow> d = c"
  by (auto simp: styleTypes_def split: if_splits)

lemma styleTypes_undefined: "styleTypes (c # ''undefined'') = None"
  by (simp add: styleTypes_def)

lemma styleTypes_not_span: "styleTypes s \<noteq> Some ''span''"
  by (auto simp: styleTypes_def split: if_splits)

lemma returnsAtI: "(\<And>n. N \<le> n \<Longrightarrow> f n b = Some (Inr node, b')) \<Longrightarrow> returnsAt f b node b'"
  by (auto simp: returnsAt_def)

lemma ge_Suc_cases: "Suc N \<le> n \<Longrightarrow> \<exists>m. n = Suc m \<and> N \<le> m"
  by (cases n) auto

lemma loop_unfold_end:
  "(case peek b of None \<Rightarrow> True | Some t \<Rightarrow> tok t \<noteq> TEXT) \<Longrightarrow>
   parseStyleLoop (Suc n) start content b
     = Some (Inr (StyleNode ''span'' (TextNode start # content)), b)"
  by (auto split: option.splits)

lemma loop_unfold_close1:
  "peek b = Some t \<Longrightarrow> tok t = TEXT \<Longrightarrow> val t = take 1 start \<Longrightarrow> length start = 1 \<Longrightarrow>
   styleTypes start = Some ty \<Longrightarrow>
   parseStyleLoop (Suc n) start content b = Some (Inr (StyleNode ty content), snd (next_tok b))"
  by (simp add: Let_def)

lemma loop_unfold_close2:
  "peek b = Some t \<Longrightarrow> tok t = TEXT \<Longrightarrow> val t = take 1 start \<Longrightarrow> length start = 2 \<Longrightarrow>
   map_option val (peek (snd (next_tok b))) = Some (take 1 (drop 1 start)) \<Longrightarrow>
   styleTypes start = Some ty \<Longrightarrow>
   parseStyleLoop (Suc n) start content b
     = Some (Inr (StyleNode ty content), snd (next_tok (snd (next_tok b))))"
  by (simp add: Let_def)

lemma loop_unfold_literal:
  "peek b = Some t \<Longrightarrow> tok t = TEXT \<Longrightarrow> val t = take 1 start \<Longrightarrow> length start = 2 \<Longrightarrow>
   map_option val (peek (snd (next_tok b))) \<noteq> Some (take 1 (drop 1 start)) \<Longrightarrow>
   parseInline n (snd (next_tok b)) = Some (Inr node, b2) \<Longrightarrow>
   parseStyleLoop (Suc n) start content b
     = parseStyleLoop n start (content @ [TextNode (take 1 start), node]) b2"
  by (auto simp add: Let_def)

lemma loop_unfold_scan:
  "peek b = Some t \<Longrightarrow> tok t = TEXT \<Longrightarrow> val t \<noteq> take 1 start \<Longrightarrow>
   parseInline n b = Some (Inr node, b2) \<Longrightarrow>
   parseStyleLoop (Suc n) start content b = parseStyleLoop n start (content @ [node]) b2"
  by (simp add: Let_def)

lemma style_before_end:
  assumes "textRun cs rest" "p < length cs" "isStyleChar (cs ! p)"
  shows "Suc p < length cs"
proof -
  have "Suc p \<noteq> length cs"
  proof
    assume "Suc p = length cs"
    then have "last cs = cs ! p" by (rule last_nth_eq)
    with assms show False by (simp add: textRun_def)
  qed
  with assms(2) show ?thesis by arith
qed

lemma expect_peek:
  "expect b m = (if matches m (map_option val (peek b)) then (Inr (peek b), snd (next_tok b))
                 else (Inl ParseError, snd (next_tok b)))"
  by (simp add: expect_def next_tok_def peek_def)

lemma matches_styleChars: "matches styleChars (Some s) = test styleChars s"
  by (simp add: styleChars_def)

lemma inline_unfold_style:
  "peek b = Some t \<Longrightarrow> test styleChars (val t) \<Longrightarrow> parseInline (Suc n) b = parseStyle n b"
  by simp

lemma inline_unfold_text:
  "peek b = Some t \<Longrightarrow> \<not> test styleChars (val t) \<Longrightarrow>
   parseInline (Suc n) b = Some (Inr (fst (parseText b)), snd (parseText b))"
  by simp

lemma style_unfold_double:
  "peek b = Some t \<Longrightarrow> val t = [c] \<Longrightarrow> isStyleChar c \<Longrightarrow>
   peek (snd (next_tok b)) = Some t2 \<Longrightarrow> val t2 = [c] \<Longrightarrow> styleTypes [c, c] \<noteq> None \<Longrightarrow>
   parseStyle (Suc n) b = parseStyleLoop n [c, c] [] (snd (next_tok (snd (next_tok b))))"
  by (auto simp add: expect_peek matches_styleChars isStyleChar_def simp del: parseStyleLoop.simps)

lemma style_unfold_single:
  "peek b = Some t \<Longrightarrow> val t = [c] \<Longrightarrow> isStyleChar c \<Longrightarrow>
   peek (snd (next_tok b)) = Some t2 \<Longrightarrow> styleTypes ([c] @ val t2) = None \<Longrightarrow>
   styleTypes [c] \<noteq> None \<Longrightarrow>
   parseStyle (Suc n) b = parseStyleLoop n [c] [] (snd (next_tok b))"
  by (auto simp add: expect_peek matches_styleChars isStyleChar_def simp del: parseStyleLoop.simps)

lemma style_unfold_text:
  "peek b = Some t \<Longrightarrow> val t = [c] \<Longrightarrow> isStyleChar c \<Longrightarrow>
   peek (snd (next_tok b)) = Some t2 \<Longrightarrow> styleTypes ([c] @ val t2) = None \<Longrightarrow>
   styleTypes [c] = None \<Longrightarrow>
   parseStyle (Suc n) b = Some (Inr (TextNode [c]), snd (next_tok b))"
  by (auto simp add: expect_peek matches_styleChars isStyleChar_def simp del: parseStyleLoop.simps)

lemma returnsAt_const:
  "(\<And>n. f (Suc n) b = Some (Inr node, b')) \<Longrightarrow> returnsAt f b node b'"
proof (rule returnsAtI[of 1])
  fix n :: nat
  assume a: "\<And>n. f (Suc n) b = Some (Inr node, b')" and "1 \<le> n"
  then obtain m where "n = Suc m" by (cases n) auto
  with a show "f n b = Some (Inr node, b')" by simp
qed

lemma returnsAt_step:
  assumes "returnsAt g b1 node b'"
      and "\<And>n. f (Suc n) b = g n b1"
  shows "returnsAt f b node b'"
proof -
  from assms(1) obtain N where N: "\<And>n. N \<le> n \<Longrightarrow> g n b1 = Some (Inr node, b')"
    by (auto simp: returnsAt_def)
  show ?thesis
  proof (rule returnsAtI[of "Suc N"])
    fix n assume "Suc N \<le> n"
    then obtain m where m: "n = Suc m" "N \<le> m" using ge_Suc_cases by blast
    show "f n b = Some (Inr node, b')" unfolding m(1) assms(2) by (rule N[OF m(2)])
  qed
qed

lemma returnsAt_seq:
  assumes "returnsAt h b0 node1 b1"
      and "returnsAt g b1 node b'"
      and "\<And>n. h n b0 = Some (Inr node1, b1) \<Longrightarrow> f (Suc n) b = g n b1"
  shows "returnsAt f b node b'"
proof -
  from assms(1) obtain N1 where N1: "\<And>n. N1 \<le> n \<Longrightarrow> h n b0 = Some (Inr node1, b1)"
    by (auto simp: returnsAt_def)
  from assms(2) obtain N2 where N2: "\<And>n. N2 \<le> n \<Longrightarrow> g n b1 = Some (Inr node, b')"
    by (auto simp: returnsAt_def)
  show ?thesis
  proof (rule returnsAtI[of "Suc (max N1 N2)"])
    fix n assume "Suc (max N1 N2) \<le> n"
    then obtain m where m: "n = Suc m" "max N1 N2 \<le> m" using ge_Suc_cases by blast
    then have "N1 \<le> m" "N2 \<le> m" by auto
    from assms(3)[OF N1[OF this(1)]] N2[OF this(2)]
    show "f n b = Some (Inr node, b')" unfolding m(1) by simp
  qed
qed

text \<open>One round of the loop of \<open>parseStyle\<close>, one call of \<open>parseStyle\<close> and of
  \<open>parseInline\<close>, given the calls at the later positions; then all positions of a run, by
  induction on the number of tokens left.\<close>

lemma loopOKI:
  "p \<le> q \<Longrightarrow> q \<le> length cs \<Longrightarrow>
   returnsAt (\<lambda>n. parseStyleLoop n start content)
     (bufferAt (textTokens cs @ rest) p) node (bufferAt (textTokens cs @ rest) q) \<Longrightarrow>
   closesStyle start node \<or> (q = length cs \<and> failsOpen start content node) \<Longrightarrow>
   (hd start \<notin> set (drop p cs) \<Longrightarrow> q = length cs \<and> failsOpen start content node) \<Longrightarrow>
   loopOK cs rest p start content"
  unfolding loopOK_def by blast

lemma failsOpen_refl: "failsOpen start content (StyleNode ''span'' (TextNode start # content))"
  by (simp add: failsOpen_def)

lemma failsOpen_more: "failsOpen start (content @ xs) node \<Longrightarrow> failsOpen start content node"
  by (auto simp: failsOpen_def)

lemma closesStyleI: "styleTypes start = Some ty \<Longrightarrow> closesStyle start (StyleNode ty content)"
  by (auto simp: closesStyle_def)

lemma loop_step:
  assumes run: "textRun cs rest" and p: "p \<le> length cs" and st: "styleTypes start \<noteq> None"
    and inl: "\<And>q. p \<le> q \<Longrightarrow> q < length cs \<Longrightarrow> inlineOK cs rest q"
    and IH: "\<And>q content'. p < q \<Longrightarrow> q \<le> length cs \<Longrightarrow> loopOK cs rest q start content'"
  shows "loopOK cs rest p start content"
proof -
  let ?B = "bufferAt (textTokens cs @ rest)"
  have rest: "rest = [] \<or> tok (hd rest) \<noteq> TEXT" using run by (simp add: textRun_def)
  from styleTypes_cases[OF st] obtain c where c: "start = [c] \<or> start = [c, c]" "isStyleChar c"
    by blast
  from st obtain ty where ty: "styleTypes start = Some ty" by auto
  have t1: "take 1 start = [c]" using c(1) by auto
  have hd: "hd start = c" using c(1) by auto
  show ?thesis
  proof (cases "p = length cs")
    case True
    have "returnsAt (\<lambda>n. parseStyleLoop n start content) (?B p)
        (StyleNode ''span'' (TextNode start # content)) (?B p)"
      unfolding True by (rule returnsAt_const) (rule loop_unfold_end[OF peek_end[OF rest]])
    then show ?thesis
      using True failsOpen_refl[of start content] by (intro loopOKI[of p p]) auto
  next
    case False
    then have pl: "p < length cs" using p by simp
    have pk: "peek (?B p) = Some (newToken TEXT [cs ! p] Undefined)" by (rule peek_text[OF pl])
    have tk: "tok (newToken TEXT [cs ! p] Undefined) = TEXT" by simp
    have nx: "snd (next_tok (?B p)) = ?B (Suc p)" by (simp add: next_tok_bufferAt)
    have nx2: "snd (next_tok (?B (Suc p))) = ?B (Suc (Suc p))" by (simp add: next_tok_bufferAt)
    have mem: "cs ! p \<in> set (drop p cs)" using drop_nth[OF pl] by simp
    show ?thesis
    proof (cases "cs ! p = c")
      case eq: True
      have vl: "val (newToken TEXT [cs ! p] Undefined) = take 1 start"
        using eq t1 by (simp add: newToken_def)
      have sp: "Suc p < length cs" using style_before_end[OF run pl] c(2) eq by simp
      have notfree: "hd start \<in> set (drop p cs)" using mem eq hd by simp
      show ?thesis
      proof (cases "start = [c]")
        case True
        then have l1: "length start = 1" by simp
        have "returnsAt (\<lambda>n. parseStyleLoop n start content) (?B p) (StyleNode ty content) (?B (Suc p))"
          by (rule returnsAt_const) (simp only: loop_unfold_close1[OF pk tk vl l1 ty] nx)
        then show ?thesis
          using sp notfree closesStyleI[OF ty] by (intro loopOKI[of p "Suc p"]) auto
      next
        case False
        then have s2: "start = [c, c]" using c(1) by simp
        then have l2: "length start = 2" and d1: "take 1 (drop 1 start) = [c]" by simp_all
        have pk1: "peek (?B (Suc p)) = Some (newToken TEXT [cs ! Suc p] Undefined)"
          by (rule peek_text[OF sp])
        show ?thesis
        proof (cases "cs ! Suc p = c")
          case True
          have m: "map_option val (peek (snd (next_tok (?B p)))) = Some (take 1 (drop 1 start))"
            unfolding nx pk1 d1 using True by (simp add: newToken_def)
          have "returnsAt (\<lambda>n. parseStyleLoop n start content) (?B p) (StyleNode ty content)
              (?B (Suc (Suc p)))"
            by (rule returnsAt_const) (simp only: loop_unfold_close2[OF pk tk vl l2 m ty] nx nx2)
          then show ?thesis
            using sp notfree closesStyleI[OF ty] by (intro loopOKI[of p "Suc (Suc p)"]) auto
        next
          case False
          have m: "map_option val (peek (snd (next_tok (?B p)))) \<noteq> Some (take 1 (drop 1 start))"
            unfolding nx pk1 d1 using False by (simp add: newToken_def)
          from inl[of "Suc p"] sp obtain node1 q1 where i1: "Suc p < q1" "q1 \<le> length cs"
            "returnsAt parseInline (?B (Suc p)) node1 (?B q1)"
            unfolding inlineOK_def by auto
          from IH[of q1 "content @ [TextNode (take 1 start), node1]"] i1
          obtain node q where l: "q1 \<le> q" "q \<le> length cs"
            "returnsAt (\<lambda>n. parseStyleLoop n start (content @ [TextNode (take 1 start), node1]))
               (?B q1) node (?B q)"
            "closesStyle start node
               \<or> (q = length cs \<and> failsOpen start (content @ [TextNode (take 1 start), node1]) node)"
            unfolding loopOK_def by auto
          have "returnsAt (\<lambda>n. parseStyleLoop n start content) (?B p) node (?B q)"
          proof (rule returnsAt_seq[where h = parseInline
                and g = "\<lambda>n. parseStyleLoop n start (content @ [TextNode (take 1 start), node1])"
                and f = "\<lambda>n. parseStyleLoop n start content" and b = "?B p", OF i1(3) l(3)])
            fix n assume "parseInline n (?B (Suc p)) = Some (Inr node1, ?B q1)"
            then have "parseInline n (snd (next_tok (?B p))) = Some (Inr node1, ?B q1)"
              by (simp only: nx)
            from loop_unfold_literal[OF pk tk vl l2 m this]
            show "parseStyleLoop (Suc n) start content (?B p)
                = parseStyleLoop n start (content @ [TextNode (take 1 start), node1]) (?B q1)" .
          qed
          then show ?thesis
            using i1 l notfree failsOpen_more by (intro loopOKI[of p q]) auto
        qed
      qed
    next
      case neq: False
      have vl: "val (newToken TEXT [cs ! p] Undefined) \<noteq> take 1 start"
        using neq t1 by (simp add: newToken_def)
      from inl[of p] pl obtain node1 q1 where i1: "p < q1" "q1 \<le> length cs"
        "returnsAt parseInline (?B p) node1 (?B q1)"
        unfolding inlineOK_def by auto
      from IH[of q1 "content @ [node1]"] i1
      obtain node q where l: "q1 \<le> q" "q \<le> length cs"
        "returnsAt (\<lambda>n. parseStyleLoop n start (content @ [node1])) (?B q1) node (?B q)"
        "closesStyle start node \<or> (q = length cs \<and> failsOpen start (content @ [node1]) node)"
        "hd start \<notin> set (drop q1 cs) \<longrightarrow> q = length cs \<and> failsOpen start (content @ [node1]) node"
        unfolding loopOK_def by auto
      have "returnsAt (\<lambda>n. parseStyleLoop n start content) (?B p) node (?B q)"
      proof (rule returnsAt_seq[where h = parseInline
            and g = "\<lambda>n. parseStyleLoop n start (content @ [node1])"
            and f = "\<lambda>n. parseStyleLoop n start content" and b = "?B p", OF i1(3) l(3)])
        fix n assume "parseInline n (?B p) = Some (Inr node1, ?B q1)"
        from loop_unfold_scan[OF pk tk vl this]
        show "parseStyleLoop (Suc n) start content (?B p)
            = parseStyleLoop n start (content @ [node1]) (?B q1)" .
      qed
      moreover have "hd start \<notin> set (drop p cs) \<Longrightarrow> hd start \<notin> set (drop q1 cs)"
        using set_drop_subset_set_drop[of p q1 cs] i1(1) by auto
      ultimately show ?thesis
        using i1 l failsOpen_more by (intro loopOKI[of p q]) auto
    qed
  qed
qed

lemma styleOKI:
  "p < q \<Longrightarrow> q \<le> length cs \<Longrightarrow>
   returnsAt parseStyle (bufferAt (textTokens cs @ rest) p) node (bufferAt (textTokens cs @ rest) q) \<Longrightarrow>
   (case opener (drop p cs) of
      None \<Rightarrow> node = TextNode [cs ! p]
    | Some start \<Rightarrow>
        (closesStyle start node \<or> (q = length cs \<and> failsOpen start [] node))
        \<and> (hd start \<notin> set (drop (p + length start) cs)
             \<longrightarrow> q = length cs \<and> failsOpen start [] node)) \<Longrightarrow>
   styleOK cs rest p"
  unfolding styleOK_def by blast

lemma style_step:
  assumes run: "textRun cs rest" and pl: "p < length cs" and sc: "isStyleChar (cs ! p)"
    and IH: "\<And>q start content. p < q \<Longrightarrow> q \<le> length cs \<Longrightarrow> styleTypes start \<noteq> None
               \<Longrightarrow> loopOK cs rest q start content"
  shows "styleOK cs rest p"
proof -
  let ?B = "bufferAt (textTokens cs @ rest)"
  define c where "c = cs ! p"
  define d where "d = cs ! Suc p"
  have sp: "Suc p < length cs" using style_before_end[OF run pl sc] .
  have pk: "peek (?B p) = Some (newToken TEXT [cs ! p] Undefined)" by (rule peek_text[OF pl])
  have vl: "val (newToken TEXT [cs ! p] Undefined) = [c]" by (simp add: newToken_def c_def)
  have nx: "snd (next_tok (?B p)) = ?B (Suc p)" by (simp add: next_tok_bufferAt)
  have nx2: "snd (next_tok (?B (Suc p))) = ?B (Suc (Suc p))" by (simp add: next_tok_bufferAt)
  have pk1: "peek (snd (next_tok (?B p))) = Some (newToken TEXT [cs ! Suc p] Undefined)"
    unfolding nx by (rule peek_text[OF sp])
  have vl1: "val (newToken TEXT [cs ! Suc p] Undefined) = [d]" by (simp add: newToken_def d_def)
  have sc': "isStyleChar c" using sc by (simp add: c_def)
  have dr: "drop p cs = c # d # drop (Suc (Suc p)) cs"
    using drop_nth[OF pl] drop_nth[OF sp] by (simp add: c_def d_def)
  show ?thesis
  proof (cases "styleTypes [c, d] \<noteq> None")
    case True
    then have dc: "d = c" by (rule styleTypes_pair)
    have cc: "styleTypes [c, c] \<noteq> None" using True dc by simp
    have op: "opener (drop p cs) = Some [c, c]" unfolding dr using dc cc by (simp add: opener_def)
    from IH[of "Suc (Suc p)" "[c, c]" "[]"] sp cc
    obtain node q where l: "Suc (Suc p) \<le> q" "q \<le> length cs"
      "returnsAt (\<lambda>n. parseStyleLoop n [c, c] []) (?B (Suc (Suc p))) node (?B q)"
      "closesStyle [c, c] node \<or> (q = length cs \<and> failsOpen [c, c] [] node)"
      "hd [c, c] \<notin> set (drop (Suc (Suc p)) cs) \<longrightarrow> q = length cs \<and> failsOpen [c, c] [] node"
      unfolding loopOK_def by auto
    have "returnsAt parseStyle (?B p) node (?B q)"
    proof (rule returnsAt_step[where g = "\<lambda>n. parseStyleLoop n [c, c] []" and f = parseStyle
          and b = "?B p", OF l(3)])
      fix n
      from style_unfold_double[OF pk vl sc' pk1 _ cc, of n] vl1 dc
      show "parseStyle (Suc n) (?B p) = parseStyleLoop n [c, c] [] (?B (Suc (Suc p)))"
        by (simp only: nx nx2)
    qed
    then show ?thesis
      using l op by (intro styleOKI[of p q]) auto
  next
    case False
    then have none2: "styleTypes ([c] @ val (newToken TEXT [cs ! Suc p] Undefined)) = None"
      by (simp add: vl1)
    have nodouble: "\<not> (c = d \<and> styleTypes [c, c] \<noteq> None)" using False by auto
    show ?thesis
    proof (cases "styleTypes [c] \<noteq> None")
      case True
      have op: "opener (drop p cs) = Some [c]" unfolding dr using nodouble True by (simp add: opener_def)
      from IH[of "Suc p" "[c]" "[]"] sp True
      obtain node q where l: "Suc p \<le> q" "q \<le> length cs"
        "returnsAt (\<lambda>n. parseStyleLoop n [c] []) (?B (Suc p)) node (?B q)"
        "closesStyle [c] node \<or> (q = length cs \<and> failsOpen [c] [] node)"
        "hd [c] \<notin> set (drop (Suc p) cs) \<longrightarrow> q = length cs \<and> failsOpen [c] [] node"
        unfolding loopOK_def by auto
      have "returnsAt parseStyle (?B p) node (?B q)"
      proof (rule returnsAt_step[where g = "\<lambda>n. parseStyleLoop n [c] []" and f = parseStyle
            and b = "?B p", OF l(3)])
        fix n
        from style_unfold_single[OF pk vl sc' pk1 none2 True, of n]
        show "parseStyle (Suc n) (?B p) = parseStyleLoop n [c] [] (?B (Suc p))"
          by (simp only: nx)
      qed
      then show ?thesis
        using l op by (intro styleOKI[of p q]) auto
    next
      case False
      then have n1: "styleTypes [c] = None" by simp
      have op: "opener (drop p cs) = None" unfolding dr using nodouble n1 by (simp add: opener_def)
      have "returnsAt parseStyle (?B p) (TextNode [c]) (?B (Suc p))"
      proof (rule returnsAt_const)
        fix n
        from style_unfold_text[OF pk vl sc' pk1 none2 n1, of n]
        show "parseStyle (Suc n) (?B p) = Some (Inr (TextNode [c]), ?B (Suc p))"
          by (simp only: nx)
      qed
      then show ?thesis
        using sp op by (intro styleOKI[of p "Suc p"]) (auto simp: c_def)
    qed
  qed
qed

lemma inline_step:
  assumes run: "textRun cs rest" and pl: "p < length cs"
    and sty: "isStyleChar (cs ! p) \<Longrightarrow> styleOK cs rest p"
  shows "inlineOK cs rest p"
proof -
  let ?B = "bufferAt (textTokens cs @ rest)"
  have rest: "rest = [] \<or> tok (hd rest) \<noteq> TEXT" using run by (simp add: textRun_def)
  have pk: "peek (?B p) = Some (newToken TEXT [cs ! p] Undefined)" by (rule peek_text[OF pl])
  show ?thesis
  proof (cases "isStyleChar (cs ! p)")
    case True
    from sty[OF True] obtain node q where s: "p < q" "q \<le> length cs"
      "returnsAt parseStyle (?B p) node (?B q)"
      unfolding styleOK_def by auto
    have t: "test styleChars (val (newToken TEXT [cs ! p] Undefined))"
      using True by (simp add: isStyleChar_def newToken_def)
    have "returnsAt parseInline (?B p) node (?B q)"
      by (rule returnsAt_step[where g = parseStyle and f = parseInline and b = "?B p", OF s(3)])
         (rule inline_unfold_style[OF pk t])
    then show ?thesis using s unfolding inlineOK_def by blast
  next
    case False
    have t: "\<not> test styleChars (val (newToken TEXT [cs ! p] Undefined))"
      using False by (simp add: isStyleChar_def newToken_def)
    have "cs ! p \<in> set cs" using pl by simp
    then have "cs ! p \<noteq> CHR ''|''" using run by (auto simp: textRun_def)
    then have plain: "isPlainChar (cs ! p)"
      using False by (simp add: isPlainChar_def isStyleChar_def layoutChars_def)
    define k where "k = length (takeWhile isPlainChar (drop p cs))"
    have "takeWhile isPlainChar (drop p cs) = cs ! p # takeWhile isPlainChar (drop (Suc p) cs)"
      using drop_nth[OF pl] plain by simp
    then have k0: "0 < k" by (simp add: k_def)
    have "k \<le> length (drop p cs)" unfolding k_def by (rule length_takeWhile_le)
    then have kl: "p + k \<le> length cs" using pl by simp
    have pt: "parseText (?B p) = (TextNode (takeWhile isPlainChar (drop p cs)), ?B (p + k))"
      using parseText_text[OF rest, of p cs] pl by (simp add: k_def)
    have "returnsAt parseInline (?B p) (TextNode (takeWhile isPlainChar (drop p cs))) (?B (p + k))"
      by (rule returnsAt_const) (simp only: inline_unfold_text[OF pk t] pt fst_conv snd_conv)
    then show ?thesis using k0 kl unfolding inlineOK_def
      by (intro exI[of _ "TextNode (takeWhile isPlainChar (drop p cs))"] exI[of _ "p + k"]) simp
  qed
qed

lemma inline_all:
  assumes run: "textRun cs rest"
  shows "(p \<le> length cs \<longrightarrow> (\<forall>start content. styleTypes start \<noteq> None \<longrightarrow> loopOK cs rest p start content))
     \<and> (p < length cs \<longrightarrow> inlineOK cs rest p)
     \<and> (p < length cs \<longrightarrow> isStyleChar (cs ! p) \<longrightarrow> styleOK cs rest p)"
proof (induction "length cs - p" arbitrary: p rule: less_induct)
  case less
  have loopIH: "\<And>q start content. p < q \<Longrightarrow> q \<le> length cs \<Longrightarrow> styleTypes start \<noteq> None
      \<Longrightarrow> loopOK cs rest q start content"
  proof -
    fix q start content
    assume q: "p < q" "q \<le> length cs" and st: "styleTypes start \<noteq> None"
    then have "length cs - q < length cs - p" by arith
    from less.hyps[OF this] q st show "loopOK cs rest q start content" by blast
  qed
  have sty: "p < length cs \<Longrightarrow> isStyleChar (cs ! p) \<Longrightarrow> styleOK cs rest p"
    using style_step[OF run _ _ loopIH] by blast
  have inlp: "p < length cs \<Longrightarrow> inlineOK cs rest p"
    using inline_step[OF run _ sty] by blast
  have inl: "\<And>q. p \<le> q \<Longrightarrow> q < length cs \<Longrightarrow> inlineOK cs rest q"
  proof -
    fix q assume q: "p \<le> q" "q < length cs"
    show "inlineOK cs rest q"
    proof (cases "q = p")
      case True
      with q inlp show ?thesis by simp
    next
      case False
      with q have "length cs - q < length cs - p" by arith
      from less.hyps[OF this] q show ?thesis by blast
    qed
  qed
  have loop: "\<And>start content. p \<le> length cs \<Longrightarrow> styleTypes start \<noteq> None
      \<Longrightarrow> loopOK cs rest p start content"
    using loop_step[OF run _ _ inl loopIH] by blast
  show ?case using loop inlp sty by blast
qed

lemma opener_style:
  assumes "p < length cs" and "opener (drop p cs) = Some start"
  shows "isStyleChar (cs ! p) \<and> styleTypes start \<noteq> None"
proof -
  from assms(1) have dr: "drop p cs = cs ! p # drop (Suc p) cs" by (rule drop_nth)
  from assms(2) have "styleTypes start \<noteq> None \<and> hd start = cs ! p"
    unfolding dr opener_def by (auto split: list.splits if_splits)
  moreover from this styleTypes_cases[of start] have "isStyleChar (hd start)" by auto
  ultimately show ?thesis by simp
qed

section \<open>Inputs on which the parser does not return\<close>

text \<open>\<open>parseText\<close> returns the empty text without consuming a token when the next token is
  no text or holds the table delimiter. A loop that calls \<open>parseInline\<close> until a newline or a
  closing token then makes no progress: whatever the fuel, the result is \<^const>\<open>None\<close>.\<close>

lemma parseText_stuck:
  "peek b = Some t \<Longrightarrow> tok t \<noteq> TEXT \<or> test styleChars (val t) \<or> test layoutChars (val t) \<Longrightarrow>
   parseText b = (TextNode [], b)"
  by (auto simp: parseText_def parseTextLoop.simps[of b])

lemma parseInline_stuck:
  "peek b = Some t \<Longrightarrow> \<not> test styleChars (val t) \<Longrightarrow> tok t \<noteq> TEXT \<or> test layoutChars (val t) \<Longrightarrow>
   parseInline (Suc n) b = Some (Inr (TextNode []), b)"
  using parseText_stuck[of b t] by (simp add: inline_unfold_text)

lemma paragraph_loop_stuck:
  assumes "peek b = Some t" and "tok t = TEXT" and "val t = ''|''"
  shows "parseParagraphLoop n lines' b = None"
proof (induction n arbitrary: lines')
  case 0
  show ?case by simp
next
  case (Suc n)
  have nst: "\<not> test styleChars (val t)" and lay: "tok t \<noteq> TEXT \<or> test layoutChars (val t)"
    using assms by (simp_all add: styleChars_def layoutChars_def)
  show ?case
  proof (cases n)
    case 0
    then show ?thesis using assms by simp
  next
    case (Suc m)
    have "parseInline n b = Some (Inr (TextNode []), b)"
      unfolding Suc by (rule parseInline_stuck[OF assms(1) nst lay])
    then show ?thesis using assms Suc.IH[of "lines' @ [TextNode []]"] by simp
  qed
qed

lemma header_loop_stuck:
  assumes "peek b = Some t" and "tok t \<noteq> TEXT" and "\<not> test styleChars (val t)" and "val t \<noteq> [nl]"
  shows "parseHeaderLoop n level content b = None"
proof (induction n arbitrary: content)
  case 0
  show ?case by simp
next
  case (Suc n)
  have hn: "hasNext b" using assms(1) by (simp add: peek_def hasNext_def split: if_splits)
  show ?case
  proof (cases n)
    case 0
    then show ?thesis using assms hn by simp
  next
    case (Suc m)
    have "parseInline n b = Some (Inr (TextNode []), b)"
      unfolding Suc by (rule parseInline_stuck[OF assms(1) assms(3)]) (simp add: assms(2))
    then show ?thesis using assms hn Suc.IH[of "content @ [TextNode []]"] by simp
  qed
qed

lemma style_loop_stuck:
  assumes "peek b = Some t" and "tok t = TEXT" and "val t = ''|''" and "styleTypes start \<noteq> None"
  shows "parseStyleLoop n start content b = None"
proof (induction n arbitrary: content)
  case 0
  show ?case by simp
next
  case (Suc n)
  have nst: "\<not> test styleChars (val t)" and lay: "tok t \<noteq> TEXT \<or> test layoutChars (val t)"
    using assms by (simp_all add: styleChars_def layoutChars_def)
  from styleTypes_cases[OF assms(4)] have ns: "val t \<noteq> take 1 start"
    using assms(3) by (auto simp: isStyleChar_def styleChars_def)
  show ?case
  proof (cases n)
    case 0
    then show ?thesis using assms ns by simp
  next
    case (Suc m)
    have i: "parseInline n b = Some (Inr (TextNode []), b)"
      unfolding Suc by (rule parseInline_stuck[OF assms(1) nst lay])
    show ?thesis
      unfolding loop_unfold_scan[OF assms(1) assms(2) ns i] by (rule Suc.IH)
  qed
qed

text \<open>So the parser does not return on a paragraph line that holds \<open>|\<close>, nor on a header
  line followed by a newline (the header's text takes the newline, and the loop of
  \<open>parseHeader\<close> then stands at the \<open>BLANK_LINE\<close> token).\<close>

lemma paragraph_unfold_scan:
  "peek b = Some t \<Longrightarrow> val t \<noteq> [nl] \<Longrightarrow> tok t = TEXT \<Longrightarrow>
   parseInline n b = Some (Inr node, b1) \<Longrightarrow>
   parseParagraphLoop (Suc n) lines' b = parseParagraphLoop n (lines' @ [node]) b1"
  by simp

lemma header_unfold_scan:
  "hasNext b \<Longrightarrow> peek b = Some t \<Longrightarrow> val t \<noteq> [nl] \<Longrightarrow>
   parseInline n b = Some (Inr node, b1) \<Longrightarrow>
   parseHeaderLoop (Suc n) level content b = parseHeaderLoop n level (content @ [node]) b1"
  by simp

theorem parse_loops_at_table_delimiter:
  "parse n (tokenize ''a|b'') = None"
proof -
  define T where "T = tokenize ''a|b''"
  have pk0: "peek (bufferAt T 0) = Some (newToken TEXT ''a'' Undefined)"
    unfolding T_def by code_simp
  have pk1: "peek (bufferAt T 1) = Some (newToken TEXT ''|'' Undefined)"
    unfolding T_def by code_simp
  have pt: "parseText (bufferAt T 0) = (TextNode ''a'', bufferAt T 1)"
    unfolding T_def by code_simp
  have hn: "hasNext (bufferAt T 0)"
    unfolding T_def by code_simp
  have stuck: "parseParagraphLoop m ls (bufferAt T 1) = None" for m ls
    by (rule paragraph_loop_stuck[OF pk1]) (simp_all add: newToken_def)
  have inl: "parseInline (Suc m) (bufferAt T 0) = Some (Inr (TextNode ''a''), bufferAt T 1)" for m
    using inline_unfold_text[OF pk0, of m] pt by (simp add: newToken_def styleChars_def)
  have para: "parseParagraphLoop m [] (bufferAt T 0) = None" for m
  proof (cases m)
    case 0
    then show ?thesis by simp
  next
    case m: (Suc k)
    show ?thesis
    proof (cases k)
      case 0
      then show ?thesis using m pk0 by (simp add: newToken_def)
    next
      case (Suc j)
      have "parseParagraphLoop (Suc k) [] (bufferAt T 0)
          = parseParagraphLoop k ([] @ [TextNode ''a'']) (bufferAt T 1)"
        unfolding Suc by (rule paragraph_unfold_scan[OF pk0 _ _ inl]) (simp_all add: newToken_def)
      then show ?thesis unfolding m stuck .
    qed
  qed
  have blk: "parseBlock m (bufferAt T 0) = None" for m
  proof (cases m)
    case 0
    then show ?thesis by simp
  next
    case (Suc k)
    then show ?thesis using pk0 para by (simp add: newToken_def parseParagraph_def)
  qed
  have "parseDocumentLoop n [] (bufferAt T 0) = None"
  proof (cases n)
    case 0
    then show ?thesis by simp
  next
    case (Suc k)
    then show ?thesis using hn blk by simp
  qed
  then show ?thesis
    by (simp add: parse_def parseDocument_def newBuffer_bufferAt T_def)
qed

theorem parse_loops_after_header_line:
  "parse n (tokenize (''# a'' @ [nl])) = None"
proof -
  define T where "T = tokenize (''# a'' @ [nl])"
  have pk0: "peek (bufferAt T 0) = Some (newToken TEXT ''#'' Undefined)"
    unfolding T_def by code_simp
  have pk1: "peek (bufferAt T 1) = Some (newToken TEXT '' '' Undefined)"
    unfolding T_def by code_simp
  have pk4: "peek (bufferAt T 4) = Some (newToken BLANK_LINE [] Undefined)"
    unfolding T_def by code_simp
  have ex: "expectAll (bufferAt T 0) (Exact ''#'') [] = (Inr ''#'', bufferAt T 1)"
    unfolding T_def by code_simp
  have pt: "parseText (bufferAt T 1) = (TextNode ('' a'' @ [nl]), bufferAt T 4)"
    unfolding T_def by code_simp
  have hn0: "hasNext (bufferAt T 0)" and hn1: "hasNext (bufferAt T 1)"
    unfolding T_def by code_simp+
  have stuck: "parseHeaderLoop m level content (bufferAt T 4) = None" for m level content
    by (rule header_loop_stuck[OF pk4]) (simp_all add: newToken_def styleChars_def)
  have inl: "parseInline (Suc m) (bufferAt T 1) = Some (Inr (TextNode ('' a'' @ [nl])), bufferAt T 4)" for m
    using inline_unfold_text[OF pk1, of m] pt by (simp add: newToken_def styleChars_def)
  have loop: "parseHeaderLoop m 1 [] (bufferAt T 1) = None" for m
  proof (cases m)
    case 0
    then show ?thesis by simp
  next
    case m: (Suc k)
    show ?thesis
    proof (cases k)
      case 0
      then show ?thesis using m pk1 hn1 by (simp add: newToken_def)
    next
      case (Suc j)
      have "parseHeaderLoop (Suc k) 1 [] (bufferAt T 1)
          = parseHeaderLoop k 1 ([] @ [TextNode ('' a'' @ [nl])]) (bufferAt T 4)"
        unfolding Suc by (rule header_unfold_scan[OF hn1 pk1 _ inl]) (simp add: newToken_def)
      then show ?thesis unfolding m stuck .
    qed
  qed
  have blk: "parseBlock m (bufferAt T 0) = None" for m
  proof (cases m)
    case 0
    then show ?thesis by simp
  next
    case (Suc k)
    then show ?thesis using pk0 ex loop by (simp add: newToken_def parseHeader_def)
  qed
  have "parseDocumentLoop n [] (bufferAt T 0) = None"
  proof (cases n)
    case 0
    then show ?thesis by simp
  next
    case (Suc k)
    then show ?thesis using hn0 blk by simp
  qed
  then show ?thesis
    by (simp add: parse_def parseDocument_def newBuffer_bufferAt T_def)
qed

text \<open>A list opened inside a block quote and closed by a blank line: the lexer closes the
  quote before the list item, so the loop of \<open>parseListItem\<close> meets \<open>END_BLOCK_QUOTE\<close>, where
  \<open>parseBlock\<close> returns an empty paragraph without consuming a token.\<close>

lemma block_at_quote_closer:
  assumes "peek b = Some t" and "tok t = END_BLOCK_QUOTE" and "val t = []"
  shows "parseBlock n b = None \<or> parseBlock n b = Some (Inr (ParagraphNode []), b)"
proof (cases n)
  case 0
  then show ?thesis by simp
next
  case n: (Suc m)
  have "parseBlock (Suc m) b = parseParagraphLoop m [] b"
    using assms by (simp add: parseParagraph_def)
  moreover have "parseParagraphLoop m [] b = None \<or> parseParagraphLoop m [] b = Some (Inr (ParagraphNode []), b)"
    using assms by (cases m) simp_all
  ultimately show ?thesis unfolding n by simp
qed

lemma item_loop_stuck:
  assumes "peek b = Some t" and "tok t = END_BLOCK_QUOTE" and "val t = []"
  shows "parseListItemLoop n blocks b = None"
proof (induction n arbitrary: blocks)
  case 0
  show ?case by simp
next
  case (Suc n)
  from block_at_quote_closer[OF assms, of n] show ?case
  proof
    assume "parseBlock n b = None"
    then show ?thesis using assms by simp
  next
    assume "parseBlock n b = Some (Inr (ParagraphNode []), b)"
    then show ?thesis using assms Suc.IH[of "blocks @ [ParagraphNode []]"] by simp
  qed
qed

theorem parse_loops_on_list_in_quote:
  "parse n (tokenize (''> a'' @ [nl] @ ''- b'' @ [nl])) = None"
proof -
  define T where "T = tokenize (''> a'' @ [nl] @ ''- b'' @ [nl])"
  have pk0: "peek (bufferAt T 0) = Some (newToken BLOCK_QUOTE ''> '' (Num 1))"
    and pk1: "peek (bufferAt T 1) = Some (newToken TEXT ''a'' Undefined)"
    and pk3: "peek (bufferAt T 3) = Some (newToken LIST [] (Frame \<lparr>anchor = 0, indent = 2\<rparr>))"
    and pk4: "peek (bufferAt T 4) = Some (newToken LIST_ITEM ''- '' (Frame \<lparr>anchor = 0, indent = 2\<rparr>))"
    and pk5: "peek (bufferAt T 5) = Some (newToken TEXT ''b'' Undefined)"
    and pk7: "peek (bufferAt T 7) = Some (newToken END_BLOCK_QUOTE [] (Num 1))"
    unfolding T_def by code_simp+
  have nx0: "snd (next_tok (bufferAt T 0)) = bufferAt T 1"
    and nx3: "snd (next_tok (bufferAt T 3)) = bufferAt T 4"
    and nx4: "snd (next_tok (bufferAt T 4)) = bufferAt T 5"
    unfolding T_def by code_simp+
  have pt1: "parseText (bufferAt T 1) = (TextNode (''a'' @ [nl]), bufferAt T 3)"
    and pt5: "parseText (bufferAt T 5) = (TextNode (''b'' @ [nl]), bufferAt T 7)"
    unfolding T_def by code_simp+
  have hn: "hasNext (bufferAt T 0)"
    unfolding T_def by code_simp
  have inl1: "parseInline (Suc m) (bufferAt T 1) = Some (Inr (TextNode (''a'' @ [nl])), bufferAt T 3)" for m
    using inline_unfold_text[OF pk1, of m] pt1 by (simp add: newToken_def styleChars_def)
  have inl5: "parseInline (Suc m) (bufferAt T 5) = Some (Inr (TextNode (''b'' @ [nl])), bufferAt T 7)" for m
    using inline_unfold_text[OF pk5, of m] pt5 by (simp add: newToken_def styleChars_def)
  have stuck: "parseListItemLoop m blocks (bufferAt T 7) = None" for m blocks
    by (rule item_loop_stuck[OF pk7]) (simp_all add: newToken_def)
  have para5: "parseParagraphLoop m [] (bufferAt T 5) = None
      \<or> parseParagraphLoop m [] (bufferAt T 5)
          = Some (Inr (ParagraphNode [TextNode (''b'' @ [nl])]), bufferAt T 7)" for m
  proof (cases m)
    case 0
    then show ?thesis by simp
  next
    case m: (Suc k)
    show ?thesis
    proof (cases k)
      case 0
      then show ?thesis using m pk5 by (simp add: newToken_def)
    next
      case (Suc j)
      have "parseParagraphLoop (Suc k) [] (bufferAt T 5)
          = parseParagraphLoop k ([] @ [TextNode (''b'' @ [nl])]) (bufferAt T 7)"
        unfolding Suc by (rule paragraph_unfold_scan[OF pk5 _ _ inl5]) (simp_all add: newToken_def)
      moreover have "parseParagraphLoop k ([] @ [TextNode (''b'' @ [nl])]) (bufferAt T 7)
          = Some (Inr (ParagraphNode [TextNode (''b'' @ [nl])]), bufferAt T 7)"
        unfolding Suc using pk7 by (simp add: newToken_def)
      ultimately show ?thesis unfolding m by simp
    qed
  qed
  have blk5: "parseBlock m (bufferAt T 5) = None
      \<or> parseBlock m (bufferAt T 5)
          = Some (Inr (ParagraphNode [TextNode (''b'' @ [nl])]), bufferAt T 7)" for m
  proof (cases m)
    case 0
    then show ?thesis by simp
  next
    case (Suc k)
    have "parseBlock (Suc k) (bufferAt T 5) = parseParagraphLoop k [] (bufferAt T 5)"
      using pk5 by (simp add: newToken_def parseParagraph_def)
    then show ?thesis unfolding Suc using para5[of k] by simp
  qed
  have itemloop: "parseListItemLoop m [] (bufferAt T 5) = None" for m
  proof (cases m)
    case 0
    then show ?thesis by simp
  next
    case (Suc k)
    from blk5[of k] show ?thesis
    proof
      assume "parseBlock k (bufferAt T 5) = None"
      then show ?thesis unfolding Suc using pk5 by (simp add: newToken_def)
    next
      assume "parseBlock k (bufferAt T 5)
          = Some (Inr (ParagraphNode [TextNode (''b'' @ [nl])]), bufferAt T 7)"
      then show ?thesis unfolding Suc using pk5 stuck by (simp add: newToken_def)
    qed
  qed
  have item: "parseListItem m (bufferAt T 4) = None" for m
    by (cases m) (simp_all add: nx4 itemloop)
  have listloop: "parseListLoop m [] (bufferAt T 4) = None" for m
    using pk4 by (cases m) (simp_all add: newToken_def item)
  have list: "parseList m (bufferAt T 3) = None" for m
    by (cases m) (simp_all add: nx3 listloop)
  have blk3: "parseBlock m (bufferAt T 3) = None" for m
    using pk3 by (cases m) (simp_all add: newToken_def list)
  have quoteloop: "parseBlockQuoteLoop m blocks (bufferAt T 3) = None" for m blocks
    using pk3 by (cases m) (simp_all add: newToken_def blk3)
  have para1: "parseParagraphLoop m [] (bufferAt T 1) = None
      \<or> parseParagraphLoop m [] (bufferAt T 1)
          = Some (Inr (ParagraphNode [TextNode (''a'' @ [nl])]), bufferAt T 3)" for m
  proof (cases m)
    case 0
    then show ?thesis by simp
  next
    case m: (Suc k)
    show ?thesis
    proof (cases k)
      case 0
      then show ?thesis using m pk1 by (simp add: newToken_def)
    next
      case (Suc j)
      have "parseParagraphLoop (Suc k) [] (bufferAt T 1)
          = parseParagraphLoop k ([] @ [TextNode (''a'' @ [nl])]) (bufferAt T 3)"
        unfolding Suc by (rule paragraph_unfold_scan[OF pk1 _ _ inl1]) (simp_all add: newToken_def)
      moreover have "parseParagraphLoop k ([] @ [TextNode (''a'' @ [nl])]) (bufferAt T 3)
          = Some (Inr (ParagraphNode [TextNode (''a'' @ [nl])]), bufferAt T 3)"
        unfolding Suc using pk3 by (simp add: newToken_def)
      ultimately show ?thesis unfolding m by simp
    qed
  qed
  have blk1: "parseBlock m (bufferAt T 1) = None
      \<or> parseBlock m (bufferAt T 1)
          = Some (Inr (ParagraphNode [TextNode (''a'' @ [nl])]), bufferAt T 3)" for m
  proof (cases m)
    case 0
    then show ?thesis by simp
  next
    case (Suc k)
    have "parseBlock (Suc k) (bufferAt T 1) = parseParagraphLoop k [] (bufferAt T 1)"
      using pk1 by (simp add: newToken_def parseParagraph_def)
    then show ?thesis unfolding Suc using para1[of k] by simp
  qed
  have quote: "parseBlockQuote m (bufferAt T 0) = None" for m
  proof (cases m)
    case 0
    then show ?thesis by simp
  next
    case (Suc k)
    from blk1[of k] show ?thesis
    proof
      assume "parseBlock k (bufferAt T 1) = None"
      then show ?thesis unfolding Suc by (simp add: nx0)
    next
      assume "parseBlock k (bufferAt T 1)
          = Some (Inr (ParagraphNode [TextNode (''a'' @ [nl])]), bufferAt T 3)"
      then show ?thesis unfolding Suc by (simp add: nx0 quoteloop)
    qed
  qed
  have blk0: "parseBlock m (bufferAt T 0) = None" for m
    using pk0 by (cases m) (simp_all add: newToken_def quote)
  have "parseDocumentLoop n [] (bufferAt T 0) = None"
    using hn by (cases n) (simp_all add: blk0)
  then show ?thesis
    by (simp add: parse_def parseDocument_def newBuffer_bufferAt T_def)
qed

section \<open>The scan of \<open>parseStyle\<close> on a text run without table delimiter\<close>

text \<open>On a run of \<open>TEXT\<close> tokens at the head of the token list, with no table delimiter in
  it, its last character no style character, and after it the end of the tokens or a token
  that is not \<open>TEXT\<close>: at every position where an opening marker stands, \<open>parseStyle\<close>
  returns, given enough fuel, at a later position. It returns either the styled node of the
  marker, closed, or, with the cursor at the end of the run, an un-styled \<open>span\<close> whose first
  child is the text of the opener; and it is such a \<open>span\<close> whenever the first character of
  the opener does not occur again in the run. For the input \<open>a *b\<close> the call at the star
  returns the \<open>span\<close> of \<open>*\<close> and of the rest of the line, and the document renders with the
  star in its text.\<close>

theorem unterminated_style_fails_open:
  "(\<forall>cs rest p start.
      textRun cs rest \<longrightarrow> p < length cs \<longrightarrow> opener (drop p cs) = Some start \<longrightarrow>
      (\<exists>node q. p < q \<and> q \<le> length cs
         \<and> returnsAt parseStyle
              (bufferAt (textTokens cs @ rest) p) node (bufferAt (textTokens cs @ rest) q)
         \<and> (closesStyle start node \<or> (q = length cs \<and> failsOpen start [] node))
         \<and> (hd start \<notin> set (drop (p + length start) cs)
              \<longrightarrow> q = length cs \<and> failsOpen start [] node)))
   \<and> tokenize ''a *b'' = textTokens (''a *b'' @ [nl])
   \<and> parseStyle 10 (bufferAt (tokenize ''a *b'') 2)
       = Some (Inr (StyleNode ''span'' [TextNode ''*'', TextNode (''b'' @ [nl])]),
               bufferAt (tokenize ''a *b'') 5)
   \<and> parse 20 (tokenize ''a *b'')
       = Some (Inr (DocumentNode
            [ParagraphNode
               [TextNode ''a '', StyleNode ''span'' [TextNode ''*'', TextNode (''b'' @ [nl])]]]))
   \<and> map_option (map_sum id html) (parse 20 (tokenize ''a *b''))
       = Some (Inr (''<p>a <br><span>*b'' @ [nl] @ ''</span></p>''))"
proof -
  have 1: "\<forall>cs rest p start.
      textRun cs rest \<longrightarrow> p < length cs \<longrightarrow> opener (drop p cs) = Some start \<longrightarrow>
      (\<exists>node q. p < q \<and> q \<le> length cs
         \<and> returnsAt parseStyle
              (bufferAt (textTokens cs @ rest) p) node (bufferAt (textTokens cs @ rest) q)
         \<and> (closesStyle start node \<or> (q = length cs \<and> failsOpen start [] node))
         \<and> (hd start \<notin> set (drop (p + length start) cs)
              \<longrightarrow> q = length cs \<and> failsOpen start [] node))"
  proof (intro allI impI)
    fix cs rest p start
    assume run: "textRun cs rest" and pl: "p < length cs" and op: "opener (drop p cs) = Some start"
    from opener_style[OF pl op] have "isStyleChar (cs ! p)" by simp
    with inline_all[OF run, of p] pl have "styleOK cs rest p" by blast
    then show "\<exists>node q. p < q \<and> q \<le> length cs
         \<and> returnsAt parseStyle
              (bufferAt (textTokens cs @ rest) p) node (bufferAt (textTokens cs @ rest) q)
         \<and> (closesStyle start node \<or> (q = length cs \<and> failsOpen start [] node))
         \<and> (hd start \<notin> set (drop (p + length start) cs)
              \<longrightarrow> q = length cs \<and> failsOpen start [] node)"
      unfolding styleOK_def op by simp
  qed
  have 2: "tokenize ''a *b'' = textTokens (''a *b'' @ [nl])" by code_simp
  have 3: "parseStyle 10 (bufferAt (tokenize ''a *b'') 2)
       = Some (Inr (StyleNode ''span'' [TextNode ''*'', TextNode (''b'' @ [nl])]),
               bufferAt (tokenize ''a *b'') 5)"
    by code_simp
  have 4: "parse 20 (tokenize ''a *b'')
       = Some (Inr (DocumentNode
            [ParagraphNode
               [TextNode ''a '', StyleNode ''span'' [TextNode ''*'', TextNode (''b'' @ [nl])]]]))"
    by code_simp
  have 5: "map_option (map_sum id html) (parse 20 (tokenize ''a *b''))
       = Some (Inr (''<p>a <br><span>*b'' @ [nl] @ ''</span></p>''))"
    by code_simp
  show ?thesis using 1 2 3 4 5 by blast
qed

text \<open>The same at the star of the tokens of \<open>a *b\<close>.\<close>

theorem unterminated_style_fails_open_example:
  "textRun (''a *b'' @ [nl]) [] \<and> opener (drop 2 (''a *b'' @ [nl])) = Some ''*''
   \<and> CHR ''*'' \<notin> set (drop 3 (''a *b'' @ [nl]))
   \<and> (\<exists>node. returnsAt parseStyle (bufferAt (textTokens (''a *b'' @ [nl])) 2) node
                 (bufferAt (textTokens (''a *b'' @ [nl])) 5)
              \<and> failsOpen ''*'' [] node)"
proof -
  let ?cs = "''a *b'' @ [nl]"
  have h1: "textRun ?cs []" by (simp add: textRun_def isStyleChar_def styleChars_def)
  have h2: "2 < length ?cs" by simp
  have h3: "opener (drop 2 ?cs) = Some ''*''" by (simp add: opener_def styleTypes_def)
  have h4: "CHR ''*'' \<notin> set (drop 3 ?cs)" by simp
  from unterminated_style_fails_open[THEN conjunct1, rule_format, OF h1 h2 h3]
  obtain node q where r: "returnsAt parseStyle (bufferAt (textTokens ?cs @ []) 2) node
        (bufferAt (textTokens ?cs @ []) q)"
    and f: "hd ''*'' \<notin> set (drop (2 + length ''*'') ?cs) \<longrightarrow> q = length ?cs \<and> failsOpen ''*'' [] node"
    by blast
  from f h4 have q: "q = 5" and fo: "failsOpen ''*'' [] node" by simp_all
  from r q have "returnsAt parseStyle (bufferAt (textTokens ?cs) 2) node (bufferAt (textTokens ?cs) 5)"
    by simp
  with h1 h3 h4 fo show ?thesis by blast
qed

text \<open>The final newline token of a line matters here. On the tokens \<open>**a*\<close>, with no
  newline token, the loop takes the last star as a literal and calls \<open>parseInline\<close> at the end
  of the tokens, which reads \<open>.val\<close> of \<open>undefined\<close>, a \<open>TypeError\<close>.\<close>

theorem style_scan_raises_without_newline:
  "opener ''**a*'' = Some ''**''
   \<and> parseStyle 10 (newBuffer (textTokens ''**a*''))
       = Some (Inl TypeError, bufferAt (textTokens ''**a*'') 4)"
  by code_simp

section \<open>The claims about the lexer\<close>

text \<open>Claim C2, as amended. For every input, the token sequence of \<open>tokenize\<close> is balanced
  family by family: the block-quote sentinels taken by themselves are properly nested, the
  list and list-item sentinels taken by themselves are properly nested (every closing sentinel
  follows its own opening sentinel, and an item lies inside its list), so the numbers of
  \<open>BLOCK_QUOTE\<close> and \<open>END_BLOCK_QUOTE\<close>, of \<open>LIST\<close> and \<open>END_LIST\<close>, and of \<open>LIST_ITEM\<close> and
  \<open>END_LIST_ITEM\<close> tokens are equal; this holds with or without a trailing newline. The two
  families are not nested in each other.\<close>

theorem sentinels_balanced_per_family:
  "properlyNested (quoteSentinels (tokenize text))
   \<and> properlyNested (listSentinels (tokenize text))
   \<and> countTok BLOCK_QUOTE (tokenize text) = countTok END_BLOCK_QUOTE (tokenize text)
   \<and> countTok LIST (tokenize text) = countTok END_LIST (tokenize text)
   \<and> countTok LIST_ITEM (tokenize text) = countTok END_LIST_ITEM (tokenize text)"
proof -
  let ?K = "map tok (tokenize text)"
  have init: "blockQuote (newLexer text) = 0" "lists' (newLexer text) = []"
    by (simp_all add: newLexer_def)
  from tokenizeFile_nested[OF init]
  have q: "nested [] (filter isQuoteTok ?K) = Some []"
    and l: "nested [] (filter isListTok ?K) = Some []"
    by (simp_all add: tokenize_def)
  from nested_counts[OF q] have "count_list ?K BLOCK_QUOTE = count_list ?K END_BLOCK_QUOTE"
    by (simp add: count_list_filter isQuoteTok_def)
  moreover from nested_counts[OF l] have "count_list ?K LIST = count_list ?K END_LIST"
    "count_list ?K LIST_ITEM = count_list ?K END_LIST_ITEM"
    by (simp_all add: count_list_filter isListTok_def)
  ultimately show ?thesis using q l
    by (simp add: properlyNested_def quoteSentinels_def listSentinels_def kinds_filter countTok_kinds)
qed

text \<open>Claim C2 as stated fails: in the tokens of a quote line followed by a list line and a
  blank line, the block quote is closed while the list opened inside it is still open.\<close>

theorem sentinels_not_nested_across_families:
  "\<not> properlyNested (tokenize (''> a'' @ [nl] @ ''- b'' @ [nl]))"
  by code_simp

text \<open>Claim C6. For every lexer state, a line of white space only (or an empty line) gives
  \<open>END_BLOCK_QUOTE\<close> once per open quote level, innermost first, then \<open>END_LIST_ITEM\<close> and
  \<open>END_LIST\<close> for every open list frame, innermost first, then a single \<open>BLANK_LINE\<close> and
  nothing else, and the quote depth, the list stack and the indentation baseline are reset;
  and the input of two quote lines separated by a blank line parses to two block quotes.\<close>

theorem blank_line_closes_all:
  "(list_all isWhiteSpace (line s) \<longrightarrow>
      tokenizeLine s =
        (map (\<lambda>i. newToken END_BLOCK_QUOTE [] (Num i)) (rev [1..<Suc (blockQuote s)])
           @ concat (map closers (rev (lists' s)))
           @ [newToken BLANK_LINE [] Undefined],
         s\<lparr>blockQuote := 0, lists' := [], indentation := 0\<rparr>))
   \<and> parse 20 (tokenize (''> a'' @ [nl, nl] @ ''> b'' @ [nl]))
       = Some (Inr (DocumentNode
           [BlockQuoteNode [ParagraphNode [TextNode (''a'' @ [nl])]],
            BlockQuoteNode [ParagraphNode [TextNode (''b'' @ [nl])]],
            ParagraphNode []]))"
proof -
  have "list_all isWhiteSpace (line s) \<Longrightarrow>
      tokenizeLine s =
        (map (\<lambda>i. newToken END_BLOCK_QUOTE [] (Num i)) (rev [1..<Suc (blockQuote s)])
           @ concat (map closers (rev (lists' s)))
           @ [newToken BLANK_LINE [] Undefined],
         s\<lparr>blockQuote := 0, lists' := [], indentation := 0\<rparr>)"
    by (simp add: tokenizeLine_def trim_empty_iff resetContext_def endLists_eq endBlockQuotes_eq)
  moreover have "parse 20 (tokenize (''> a'' @ [nl, nl] @ ''> b'' @ [nl]))
       = Some (Inr (DocumentNode
           [BlockQuoteNode [ParagraphNode [TextNode (''a'' @ [nl])]],
            BlockQuoteNode [ParagraphNode [TextNode (''b'' @ [nl])]],
            ParagraphNode []]))"
    by code_simp
  ultimately show ?thesis by blast
qed

text \<open>Claim C6 at a state with two open quote levels and two open lists.\<close>

theorem blank_line_closes_all_witness:
  "list_all isWhiteSpace (line (lexerState 2 [\<lparr>anchor = 0, indent = 2\<rparr>, \<lparr>anchor = 2, indent = 4\<rparr>] 4 ('' '' @ [tab, nl])))
   \<and> tokenizeLine (lexerState 2 [\<lparr>anchor = 0, indent = 2\<rparr>, \<lparr>anchor = 2, indent = 4\<rparr>] 4 ('' '' @ [tab, nl]))
      = ([newToken END_BLOCK_QUOTE [] (Num 2), newToken END_BLOCK_QUOTE [] (Num 1),
          newToken END_LIST_ITEM [] (Num 2), newToken END_LIST [] (Num 2),
          newToken END_LIST_ITEM [] (Num 0), newToken END_LIST [] (Num 0),
          newToken BLANK_LINE [] Undefined],
         lexerState 0 [] 0 ('' '' @ [tab, nl]))"
proof -
  have u: "[Suc 0..<3] = [Suc 0, 2]" by (simp add: upt_rec)
  show ?thesis
    using blank_line_closes_all[of "lexerState 2 [\<lparr>anchor = 0, indent = 2\<rparr>, \<lparr>anchor = 2, indent = 4\<rparr>] 4 ('' '' @ [tab, nl])"]
    by (simp add: lexerState_def isWhiteSpace_def closers_def u)
qed

text \<open>Claim C7. On a line that opens a list item, after the lists that the line has dedented
  past are closed: when the item's indentation is below the indent threshold of the innermost
  open list the line is a sibling item (\<open>END_LIST_ITEM\<close>, the list stack unchanged), otherwise
  a new list is opened (\<open>LIST\<close>, its frame pushed); either way a \<open>LIST_ITEM\<close> follows. So an
  item indented by two under an item gives a nested list with one item, and an item that is
  not indented gives a second item of the same list.\<close>

theorem list_sibling_or_nested:
  assumes "ind = min (indentation s + 4) (spacesAt (line s) 0)"
      and "ind \<noteq> indentation s + 4"
      and "isListMarker (charAt (line s) ind)"
      and "charAt (line s) (Suc ind) = Some (CHR '' '')"
      and "popLists ind (lists' s) = (closed, ls)"
  shows "(\<exists>frame item rest. anchor frame = ind \<and> tok item = LIST_ITEM \<and>
           (if ls \<noteq> [] \<and> ind < indent (last ls)
            then fst (tokenizeLine s)
                   = closed @ [newToken END_LIST_ITEM [] (Sibling ind (last ls)), item] @ rest
                 \<and> lists' (snd (tokenizeLine s)) = ls
            else fst (tokenizeLine s) = closed @ [newToken LIST [] (Frame frame), item] @ rest
                 \<and> lists' (snd (tokenizeLine s)) = ls @ [frame]))
     \<and> parse 20 (tokenize (''- a'' @ [nl] @ ''  - b'' @ [nl]))
         = Some (Inr (DocumentNode
             [ListNode
               [ListItemNode
                 [ParagraphNode [TextNode (''a'' @ [nl])],
                  ListNode [ListItemNode [ParagraphNode [TextNode (''b'' @ [nl])]]]]],
              ParagraphNode []]))
     \<and> parse 20 (tokenize (''- a'' @ [nl] @ ''- b'' @ [nl]))
         = Some (Inr (DocumentNode
             [ListNode
               [ListItemNode [ParagraphNode [TextNode (''a'' @ [nl])]],
                ListItemNode [ParagraphNode [TextNode (''b'' @ [nl])]]],
              ParagraphNode []]))"
proof -
  define post where "post = min 5 (spacesAt (line s) (Suc ind))"
  define itm where "itm = (post - 1) mod 4 + 1"
  define thr where "thr = ind + 1 + itm"
  define frame where "frame = \<lparr>anchor = ind, indent = thr\<rparr>"
  define item where "item = newToken LIST_ITEM (line s ! ind # replicate itm (CHR '' '')) (Frame frame)"
  define rest where "rest = (if post = 5
      then [newToken CODE_BLOCK (drop (ind + 6) (line s)) (Num (thr + 4))]
      else textTokens (drop (Suc ind + post) (line s)))"
  from line_list_item[OF assms(1-4) post_def itm_def thr_def assms(5)]
  have T: "fst (tokenizeLine s) =
         closed
         @ [if ls \<noteq> [] \<and> ind < indent (last ls)
            then newToken END_LIST_ITEM [] (Sibling ind (last ls))
            else newToken LIST [] (Frame frame)]
         @ [item] @ rest"
    and L: "lists' (snd (tokenizeLine s)) =
         (if ls \<noteq> [] \<and> ind < indent (last ls) then ls else ls @ [frame])"
    by (simp_all add: lineResult_def frame_def item_def rest_def)
  have "anchor frame = ind \<and> tok item = LIST_ITEM \<and>
           (if ls \<noteq> [] \<and> ind < indent (last ls)
            then fst (tokenizeLine s)
                   = closed @ [newToken END_LIST_ITEM [] (Sibling ind (last ls)), item] @ rest
                 \<and> lists' (snd (tokenizeLine s)) = ls
            else fst (tokenizeLine s) = closed @ [newToken LIST [] (Frame frame), item] @ rest
                 \<and> lists' (snd (tokenizeLine s)) = ls @ [frame])"
    unfolding T L by (simp add: frame_def item_def)
  then have 1: "\<exists>frame item rest. anchor frame = ind \<and> tok item = LIST_ITEM \<and>
           (if ls \<noteq> [] \<and> ind < indent (last ls)
            then fst (tokenizeLine s)
                   = closed @ [newToken END_LIST_ITEM [] (Sibling ind (last ls)), item] @ rest
                 \<and> lists' (snd (tokenizeLine s)) = ls
            else fst (tokenizeLine s) = closed @ [newToken LIST [] (Frame frame), item] @ rest
                 \<and> lists' (snd (tokenizeLine s)) = ls @ [frame])"
    by blast
  have 3: "parse 20 (tokenize (''- a'' @ [nl] @ ''  - b'' @ [nl]))
         = Some (Inr (DocumentNode
             [ListNode
               [ListItemNode
                 [ParagraphNode [TextNode (''a'' @ [nl])],
                  ListNode [ListItemNode [ParagraphNode [TextNode (''b'' @ [nl])]]]]],
              ParagraphNode []]))"
    by code_simp
  have 4: "parse 20 (tokenize (''- a'' @ [nl] @ ''- b'' @ [nl]))
         = Some (Inr (DocumentNode
             [ListNode
               [ListItemNode [ParagraphNode [TextNode (''a'' @ [nl])]],
                ListItemNode [ParagraphNode [TextNode (''b'' @ [nl])]]],
              ParagraphNode []]))"
    by code_simp
  show ?thesis using 1 3 4 by blast
qed

text \<open>Claim C7 at the second line of two sibling items.\<close>

theorem list_sibling_or_nested_witness:
  "isListMarker (charAt (line (lexerState 0 [\<lparr>anchor = 0, indent = 2\<rparr>] 2 (''- b'' @ [nl]))) 0)
   \<and> charAt (line (lexerState 0 [\<lparr>anchor = 0, indent = 2\<rparr>] 2 (''- b'' @ [nl]))) 1 = Some (CHR '' '')
   \<and> popLists 0 [\<lparr>anchor = 0, indent = 2\<rparr>] = ([], [\<lparr>anchor = 0, indent = 2\<rparr>])
   \<and> (\<exists>item rest. tok item = LIST_ITEM
        \<and> fst (tokenizeLine (lexerState 0 [\<lparr>anchor = 0, indent = 2\<rparr>] 2 (''- b'' @ [nl])))
            = [newToken END_LIST_ITEM [] (Sibling 0 \<lparr>anchor = 0, indent = 2\<rparr>), item] @ rest
        \<and> lists' (snd (tokenizeLine (lexerState 0 [\<lparr>anchor = 0, indent = 2\<rparr>] 2 (''- b'' @ [nl]))))
            = [\<lparr>anchor = 0, indent = 2\<rparr>])"
proof -
  have pop: "popLists 0 [\<lparr>anchor = 0, indent = 2\<rparr>] = ([], [\<lparr>anchor = 0, indent = 2\<rparr>])"
    by (simp add: popLists.simps)
  show ?thesis
    using list_sibling_or_nested[of 0 "lexerState 0 [\<lparr>anchor = 0, indent = 2\<rparr>] 2 (''- b'' @ [nl])"
        "[]" "[\<lparr>anchor = 0, indent = 2\<rparr>]"] pop
    by (simp add: lexerState_def spacesAt_def isListMarker_def charAt_def)
qed

text \<open>Claim C8. On a line that opens a list item (the line is not indented to the code-block
  column, and a marker \<open>-\<close>, \<open>+\<close> or \<open>*\<close> is followed by a space), the spaces after the
  marker are counted up to 5 (\<open>postIndentation\<close>, at least 1), the item's content indentation is
  \<open>((postIndentation - 1) mod 4) + 1\<close>, the indent threshold is the indentation plus the marker
  length 1 plus the content indentation, the \<open>LIST_ITEM\<close> token carries the marker padded to
  the content indentation, with 5 spaces the rest of the line is one \<open>CODE_BLOCK\<close> token, and
  the indentation baseline becomes the threshold.\<close>

theorem list_item_indentation:
  assumes "ind = min (indentation s + 4) (spacesAt (line s) 0)"
      and "ind \<noteq> indentation s + 4"
      and "isListMarker (charAt (line s) ind)"
      and "charAt (line s) (Suc ind) = Some (CHR '' '')"
      and "postIndentation = min 5 (spacesAt (line s) (Suc ind))"
      and "itemIndent = (postIndentation - 1) mod 4 + 1"
      and "threshold = ind + 1 + itemIndent"
      and "popLists ind (lists' s) = (closed, ls)"
  shows "1 \<le> postIndentation \<and> postIndentation \<le> 5
     \<and> fst (tokenizeLine s) =
         closed
         @ [if ls \<noteq> [] \<and> ind < indent (last ls)
            then newToken END_LIST_ITEM [] (Sibling ind (last ls))
            else newToken LIST [] (Frame \<lparr>anchor = ind, indent = threshold\<rparr>)]
         @ [newToken LIST_ITEM (line s ! ind # replicate itemIndent (CHR '' ''))
              (Frame \<lparr>anchor = ind, indent = threshold\<rparr>)]
         @ (if postIndentation = 5
            then [newToken CODE_BLOCK (drop (ind + 6) (line s)) (Num (threshold + 4))]
            else textTokens (drop (Suc ind + postIndentation) (line s)))
     \<and> indentation (snd (tokenizeLine s)) = threshold"
  using line_list_item[OF assms] by (simp add: lineResult_def)

text \<open>Claim C8 at a marker followed by five spaces.\<close>

theorem list_item_indentation_witness:
  "isListMarker (charAt (line (lexerState 0 [] 0 (''-     x'' @ [nl]))) 0)
   \<and> charAt (line (lexerState 0 [] 0 (''-     x'' @ [nl]))) 1 = Some (CHR '' '')
   \<and> min 5 (spacesAt (line (lexerState 0 [] 0 (''-     x'' @ [nl]))) 1) = 5
   \<and> fst (tokenizeLine (lexerState 0 [] 0 (''-     x'' @ [nl])))
       = [newToken LIST [] (Frame \<lparr>anchor = 0, indent = 2\<rparr>),
          newToken LIST_ITEM ''- '' (Frame \<lparr>anchor = 0, indent = 2\<rparr>),
          newToken CODE_BLOCK (''x'' @ [nl]) (Num 6)]
   \<and> indentation (snd (tokenizeLine (lexerState 0 [] 0 (''-     x'' @ [nl])))) = 2"
  using list_item_indentation[of 0 "lexerState 0 [] 0 (''-     x'' @ [nl])" 5 1 2 "[]" "[]"]
  by (simp add: lexerState_def spacesAt_def isListMarker_def charAt_def popLists.simps)

text \<open>Claim C9, as amended. On a line that is not indented to the code-block column and whose
  first character after the indentation is \<open>>\<close>: the markers are counted; a count below the
  open depth is raised to the open depth unless the line is nothing but its markers; then
  \<open>END_BLOCK_QUOTE\<close> is emitted for each level above the count, innermost first, and
  \<open>BLOCK_QUOTE\<close> for each new level up to the count, outermost first, where the innermost new
  token carries the whole marker text consumed on the line (every \<open>>\<close> with the space or tab
  after it) and the others carry the empty text; the depth becomes the count.\<close>

theorem block_quote_markers:
  assumes "ind = min (indentation s + 4) (spacesAt (line s) 0)"
      and "ind \<noteq> indentation s + 4"
      and "charAt (line s) ind = Some (CHR ''>'')"
      and "scanQuote (line s) ind [] 0 = (v, counted, p)"
      and "count = (if counted < blockQuote s \<and> trim v \<noteq> trim (line s)
                    then blockQuote s else counted)"
      and "popLists ind (lists' s) = (closed, ls)"
  shows "v = take (p - ind) (drop ind (line s))
     \<and> counted = length (filter (\<lambda>c. c = CHR ''>'') v)
     \<and> fst (tokenizeLine s) =
         closed
         @ map (\<lambda>i. newToken END_BLOCK_QUOTE [] (Num i)) (rev [Suc count ..< Suc (blockQuote s)])
         @ map (\<lambda>i. newToken BLOCK_QUOTE (if i = count then v else []) (Num i))
               [Suc (blockQuote s) ..< Suc count]
         @ textTokens (drop p (line s))
     \<and> blockQuote (snd (tokenizeLine s)) = count"
  using line_block_quote[OF assms] by (simp add: lineResult_def)

text \<open>Claim C9 at a lazy continuation: two markers at depth three.\<close>

theorem block_quote_markers_witness:
  "charAt (line (lexerState 3 [] 0 (''> >x'' @ [nl]))) 0 = Some (CHR ''>'')
   \<and> scanQuote (line (lexerState 3 [] 0 (''> >x'' @ [nl]))) 0 [] 0 = (''> >'', 2, 3)
   \<and> fst (tokenizeLine (lexerState 3 [] 0 (''> >x'' @ [nl])))
       = [newToken TEXT ''x'' Undefined, newToken TEXT [nl] Undefined]
   \<and> blockQuote (snd (tokenizeLine (lexerState 3 [] 0 (''> >x'' @ [nl])))) = 3"
proof -
  have scan: "scanQuote (line (lexerState 3 [] 0 (''> >x'' @ [nl]))) 0 [] 0 = (''> >'', 2, 3)"
    by code_simp
  have tr: "trim ''> >'' \<noteq> trim (''> >x'' @ [nl])" by code_simp
  show ?thesis
    using block_quote_markers[of 0 "lexerState 3 [] 0 (''> >x'' @ [nl])" "''> >''" 2 3 3 "[]" "[]"]
      scan tr
    by (simp add: lexerState_def spacesAt_def charAt_def popLists.simps textTokens_def)
qed

text \<open>Claim C9 as stated fails: for two markers the innermost new token carries both, not
  the last marker group; and a \<open>>\<close> at the code-block column opens no quote.\<close>

theorem block_quote_value_counterexample:
  "fst (tokenizeLine (lexerState 0 [] 0 (''>>a'' @ [nl])))
     = [newToken BLOCK_QUOTE [] (Num 1), newToken BLOCK_QUOTE ''>>'' (Num 2),
        newToken TEXT ''a'' Undefined, newToken TEXT [nl] Undefined]
   \<and> lastMarkerGroup ''>>'' = ''>''
   \<and> fst (tokenizeLine (lexerState 0 [] 0 (''    >a'' @ [nl])))
     = [newToken CODE_BLOCK (''>a'' @ [nl]) (Num 4)]"
  by code_simp

text \<open>Claim C10. The lexer splits the input at newlines and appends a newline to every piece;
  the tokens are the contributions of the lines in order, followed by the closing tokens of
  the end of input; and the contribution of every line that is not blank ends with a \<open>TEXT\<close>
  token holding the newline or with a \<open>CODE_BLOCK\<close> token whose text ends with the newline,
  the last line of an input without trailing newline included.\<close>

theorem every_line_newline_terminated:
  "lines (newLexer text) = map (\<lambda>piece. piece @ [nl]) (split_nl text)
   \<and> tokenize text
       = concat (contributions (lines (newLexer text)) (newLexer text))
         @ fst (resetContext (snd (tokenizeLines (lines (newLexer text)) (newLexer text))))
   \<and> list_all2 (\<lambda>l toks. list_all isWhiteSpace l \<or> endsWithNewline toks)
        (lines (newLexer text)) (contributions (lines (newLexer text)) (newLexer text))"
proof -
  have 1: "lines (newLexer text) = map (\<lambda>piece. piece @ [nl]) (split_nl text)"
    by (simp add: newLexer_def)
  have 2: "tokenize text
       = concat (contributions (lines (newLexer text)) (newLexer text))
         @ fst (resetContext (snd (tokenizeLines (lines (newLexer text)) (newLexer text))))"
    by (simp add: tokenize_def tokenizeFile_def split_def Let_def contributions_concat)
  have "list_all (\<lambda>l. \<exists>piece. l = piece @ [nl]) (lines (newLexer text))"
    unfolding 1 by (simp add: list_all_iff)
  from contributions_end[OF this] 1 2 show ?thesis by blast
qed

section \<open>The claims about the parser on given inputs\<close>

text \<open>Claim C1 fails on the code. For the input \<open>|\<close> the table parser reaches the end of the
  tokens and the \<open>throw\<close> statement of \<open>expect\<close>: \<open>parseBlock\<close> raises. The handler of
  \<open>parseDocument\<close> catches the \<open>ParseError\<close> and then tests \<open>undefined\<close> against the pattern for
  "not a newline", which matches, and reads \<open>.val\<close> of \<open>undefined\<close>: a \<open>TypeError\<close> leaves
  \<open>parse\<close>. (Where \<open>ParseError\<close> is not bound in buffer.js, what \<open>parseBlock\<close> raises is a
  \<open>ReferenceError\<close>, and the handler throws it again: an error leaves \<open>parse\<close> there too.)\<close>

theorem recovery_at_end_of_input_throws:
  "tokenize ''|'' = [newToken TEXT ''|'' Undefined, newToken TEXT [nl] Undefined]
   \<and> parseBlock 9 (newBuffer (tokenize ''|'')) = Some (Inl ParseError, bufferAt (tokenize ''|'') 3)
   \<and> parse 10 (tokenize ''|'') = Some (Inl TypeError)"
  by code_simp

text \<open>Claim C4, as amended. Where the next two tokens hold the same character and the doubled
  character is a marker, \<open>parseStyle\<close> takes the two-character marker. The input \<open>**bold**\<close>
  renders as a paragraph holding \<open><strong>bold</strong>\<close>, followed by the empty paragraph
  of the line's newline token; \<open>*em*\<close> renders as a paragraph holding \<open><em>em</em>\<close>, followed
  by that empty paragraph; and in \<open>***x**\<close> the third star is literal text that is the first
  child inside the \<open><strong>\<close> span, \<open><strong>*x</strong>\<close>, again in a paragraph followed by
  the empty one.\<close>

theorem two_character_marker_first:
  "(Suc (index b) < length (tokens b) \<longrightarrow> val (tokens b ! index b) = [c] \<longrightarrow>
      val (tokens b ! Suc (index b)) = [c] \<longrightarrow> styleTypes [c, c] \<noteq> None \<longrightarrow>
      parseStyle (Suc n) b = parseStyleLoop n [c, c] [] (b\<lparr>index := index b + 2\<rparr>))
   \<and> map_option (map_sum id html) (parse 20 (tokenize ''**bold**''))
       = Some (Inr (''<p><strong>bold</strong></p>'' @ [nl] @ ''<p></p>''))
   \<and> map_option (map_sum id html) (parse 20 (tokenize ''*em*''))
       = Some (Inr (''<p><em>em</em></p>'' @ [nl] @ ''<p></p>''))
   \<and> parse 20 (tokenize ''***x**'')
       = Some (Inr (DocumentNode
            [ParagraphNode [StyleNode ''strong'' [TextNode ''*'', TextNode ''x'']],
             ParagraphNode []]))
   \<and> map_option (map_sum id html) (parse 20 (tokenize ''***x**''))
       = Some (Inr (''<p><strong>*x</strong></p>'' @ [nl] @ ''<p></p>''))"
proof -
  have 1: "Suc (index b) < length (tokens b) \<longrightarrow> val (tokens b ! index b) = [c] \<longrightarrow>
      val (tokens b ! Suc (index b)) = [c] \<longrightarrow> styleTypes [c, c] \<noteq> None \<longrightarrow>
      parseStyle (Suc n) b = parseStyleLoop n [c, c] [] (b\<lparr>index := index b + 2\<rparr>)"
    using styleTypes_double[of c]
    by (auto simp: expect_def next_tok_def peek_def styleChars_def simp del: parseStyleLoop.simps)
  have 2: "map_option (map_sum id html) (parse 20 (tokenize ''**bold**''))
       = Some (Inr (''<p><strong>bold</strong></p>'' @ [nl] @ ''<p></p>''))"
    by code_simp
  have 3: "map_option (map_sum id html) (parse 20 (tokenize ''*em*''))
       = Some (Inr (''<p><em>em</em></p>'' @ [nl] @ ''<p></p>''))"
    by code_simp
  have 4: "parse 20 (tokenize ''***x**'')
       = Some (Inr (DocumentNode
            [ParagraphNode [StyleNode ''strong'' [TextNode ''*'', TextNode ''x'']],
             ParagraphNode []]))"
    by code_simp
  have 5: "map_option (map_sum id html) (parse 20 (tokenize ''***x**''))
       = Some (Inr (''<p><strong>*x</strong></p>'' @ [nl] @ ''<p></p>''))"
    by code_simp
  show ?thesis using 1 2 3 4 5 by blast
qed

text \<open>Claim C4 at the tokens of \<open>**b**\<close>.\<close>

theorem two_character_marker_first_witness:
  "Suc (index (newBuffer (textTokens ''**b**''))) < length (tokens (newBuffer (textTokens ''**b**'')))
   \<and> val (tokens (newBuffer (textTokens ''**b**'')) ! 0) = ''*''
   \<and> val (tokens (newBuffer (textTokens ''**b**'')) ! 1) = ''*''
   \<and> styleTypes ''**'' = Some ''strong''
   \<and> parseStyle (Suc 5) (newBuffer (textTokens ''**b**''))
       = parseStyleLoop 5 ''**'' [] (newBuffer (textTokens ''**b**'')\<lparr>index := 2\<rparr>)
   \<and> parseStyleLoop 5 ''**'' [] (newBuffer (textTokens ''**b**'')\<lparr>index := 2\<rparr>)
       = Some (Inr (StyleNode ''strong'' [TextNode ''b'']),
               newBuffer (textTokens ''**b**'')\<lparr>index := 5\<rparr>)"
proof -
  let ?b = "newBuffer (textTokens ''**b**'')"
  have h1: "Suc (index ?b) < length (tokens ?b)"
    by (simp add: newBuffer_def textTokens_def)
  have h2: "val (tokens ?b ! index ?b) = [CHR ''*'']"
    by (simp add: newBuffer_def textTokens_def newToken_def)
  have h3: "val (tokens ?b ! Suc (index ?b)) = [CHR ''*'']"
    by (simp add: newBuffer_def textTokens_def newToken_def)
  have h4: "styleTypes ''**'' = Some ''strong''" by code_simp
  then have h4': "styleTypes [CHR ''*'', CHR ''*''] \<noteq> None" by simp
  have e: "parseStyleLoop 5 ''**'' [] (?b\<lparr>index := 2\<rparr>)
       = Some (Inr (StyleNode ''strong'' [TextNode ''b'']), ?b\<lparr>index := 5\<rparr>)"
    by code_simp
  have i0: "index ?b = 0" by (simp add: newBuffer_def)
  from two_character_marker_first[THEN conjunct1, rule_format, OF h1 h2 h3 h4', of 5]
  have "parseStyle (Suc 5) ?b = parseStyleLoop 5 ''**'' [] (?b\<lparr>index := 2\<rparr>)"
    by (simp only: i0 add_0)
  with h1 h2 h3 h4 e i0 show ?thesis by simp
qed

text \<open>Claim C4 as written fails: the renderings are not \<open><strong>bold</strong>\<close> and
  \<open><em>em</em>\<close> but paragraphs holding them, followed by an empty paragraph; and for
  \<open>***x**\<close> the third star is a child of the \<open><strong>\<close> span, not text in front of it.\<close>

theorem marker_rendering_counterexample:
  "map_option (map_sum id html) (parse 20 (tokenize ''**bold**''))
       = Some (Inr (''<p><strong>bold</strong></p>'' @ [nl] @ ''<p></p>''))
   \<and> map_option (map_sum id html) (parse 20 (tokenize ''**bold**''))
       \<noteq> Some (Inr ''<strong>bold</strong>'')
   \<and> map_option (map_sum id html) (parse 20 (tokenize ''*em*''))
       = Some (Inr (''<p><em>em</em></p>'' @ [nl] @ ''<p></p>''))
   \<and> map_option (map_sum id html) (parse 20 (tokenize ''*em*''))
       \<noteq> Some (Inr ''<em>em</em>'')
   \<and> parse 20 (tokenize ''***x**'')
       = Some (Inr (DocumentNode
            [ParagraphNode [StyleNode ''strong'' [TextNode ''*'', TextNode ''x'']],
             ParagraphNode []]))
   \<and> map_option (map_sum id html) (parse 20 (tokenize ''***x**''))
       \<noteq> Some (Inr ''*<strong>x</strong>'')
   \<and> map_option (map_sum id html) (parse 20 (tokenize ''***x**''))
       \<noteq> Some (Inr (''<p>*<strong>x</strong></p>'' @ [nl] @ ''<p></p>''))"
  by code_simp

section \<open>The claims about the parser on whole lines\<close>

text \<open>Claim C3 fails on the code. For the input \<open>*a|\<close> the lexer gives the text tokens
  \<open>*\<close>, \<open>a\<close>, \<open>|\<close> and the newline. \<open>parseStyle\<close> recognizes the opening marker \<open>*\<close>, and no
  closing star follows; but at \<open>|\<close> \<open>parseText\<close> returns the empty text without consuming
  the token, so the loop of \<open>parseStyle\<close> never reaches the end of the tokens: whatever the
  fuel, \<open>parseStyle\<close> does not return the un-styled \<open>span\<close>, nor anything else, and neither
  does \<open>parse\<close>.\<close>

theorem unterminated_style_before_delimiter_loops:
  "tokenize ''*a|'' = textTokens (''*a|'' @ [nl])
   \<and> opener (''*a|'' @ [nl]) = Some ''*''
   \<and> CHR ''*'' \<notin> set (drop 1 (''*a|'' @ [nl]))
   \<and> parseStyle n (newBuffer (tokenize ''*a|'')) = None
   \<and> parse n (tokenize ''*a|'') = None"
proof -
  define T where "T = tokenize ''*a|''"
  have tk: "tokenize ''*a|'' = textTokens (''*a|'' @ [nl])" by code_simp
  have pk0: "peek (bufferAt T 0) = Some (newToken TEXT ''*'' Undefined)"
    unfolding T_def by code_simp
  have pk1: "peek (bufferAt T 1) = Some (newToken TEXT ''a'' Undefined)"
    unfolding T_def by code_simp
  have pk2: "peek (bufferAt T 2) = Some (newToken TEXT ''|'' Undefined)"
    unfolding T_def by code_simp
  have nx: "snd (next_tok (bufferAt T 0)) = bufferAt T 1"
    unfolding T_def by code_simp
  have hn: "hasNext (bufferAt T 0)"
    unfolding T_def by code_simp
  have pk1': "peek (snd (next_tok (bufferAt T 0))) = Some (newToken TEXT ''a'' Undefined)"
    unfolding nx by (rule pk1)
  have pt: "parseText (bufferAt T 1) = (TextNode ''a'', bufferAt T 2)"
    unfolding T_def by code_simp
  have st: "styleTypes ''*'' \<noteq> None" "styleTypes ''*a'' = None" "isStyleChar (CHR ''*'')"
    by (simp_all add: styleTypes_def isStyleChar_def styleChars_def)
  have stuck: "parseStyleLoop m ''*'' content (bufferAt T 2) = None" for m content
    by (rule style_loop_stuck[OF pk2 _ _ st(1)]) (simp_all add: newToken_def)
  have inl: "parseInline (Suc m) (bufferAt T 1) = Some (Inr (TextNode ''a''), bufferAt T 2)" for m
    using inline_unfold_text[OF pk1, of m] pt by (simp add: newToken_def styleChars_def)
  have loop: "parseStyleLoop m ''*'' [] (bufferAt T 1) = None" for m
  proof (cases m)
    case 0
    then show ?thesis by simp
  next
    case m: (Suc k)
    show ?thesis
    proof (cases k)
      case 0
      then show ?thesis using m pk1 by (simp add: newToken_def)
    next
      case (Suc j)
      have "parseStyleLoop (Suc k) ''*'' [] (bufferAt T 1)
          = parseStyleLoop k ''*'' ([] @ [TextNode ''a'']) (bufferAt T 2)"
        unfolding Suc by (rule loop_unfold_scan[OF pk1 _ _ inl]) (simp_all add: newToken_def)
      then show ?thesis unfolding m stuck .
    qed
  qed
  have style: "parseStyle m (bufferAt T 0) = None" for m
  proof (cases m)
    case 0
    then show ?thesis by simp
  next
    case (Suc k)
    have "parseStyle (Suc k) (bufferAt T 0) = parseStyleLoop k ''*'' [] (snd (next_tok (bufferAt T 0)))"
      by (rule style_unfold_single[OF pk0 _ st(3) pk1' _ st(1)])
         (simp_all add: newToken_def st(2))
    then show ?thesis using Suc loop nx by simp
  qed
  have inline: "parseInline m (bufferAt T 0) = None" for m
  proof (cases m)
    case 0
    then show ?thesis by simp
  next
    case (Suc k)
    have "parseInline (Suc k) (bufferAt T 0) = parseStyle k (bufferAt T 0)"
      by (rule inline_unfold_style[OF pk0]) (simp add: newToken_def styleChars_def)
    then show ?thesis unfolding Suc style .
  qed
  have para: "parseParagraphLoop m [] (bufferAt T 0) = None" for m
    using pk0 by (cases m) (simp_all add: newToken_def inline)
  have blk: "parseBlock m (bufferAt T 0) = None" for m
    using pk0 by (cases m) (simp_all add: newToken_def parseParagraph_def para)
  have doc: "parseDocumentLoop n [] (bufferAt T 0) = None"
    using hn by (cases n) (simp_all add: blk)
  have 1: "parseStyle n (newBuffer (tokenize ''*a|'')) = None"
    using style[of n] by (simp add: newBuffer_bufferAt T_def)
  have 2: "parse n (tokenize ''*a|'') = None"
    using doc by (simp add: parse_def parseDocument_def newBuffer_bufferAt T_def)
  have 3: "opener (''*a|'' @ [nl]) = Some ''*''" by (simp add: opener_def styleTypes_def)
  have 4: "CHR ''*'' \<notin> set (drop 1 (''*a|'' @ [nl]))" by simp
  show ?thesis using tk 1 2 3 4 by blast
qed

text \<open>Claim C5, amended. A single line of plain text is tokenized into one \<open>TEXT\<close> token per
  character, the newline that the lexer appends included; the parser, given fuel 4 or more,
  returns a document of one paragraph of one text node, whose text is the line followed by
  the newline, and the document renders to \<open><p>\<close>, the line, the newline, \<open></p>\<close>.\<close>

theorem plain_line_round_trip:
  assumes "plainLine cs"
  shows "tokenize cs = textTokens (cs @ [nl])
     \<and> parse (n + 4) (tokenize cs)
         = Some (Inr (DocumentNode [ParagraphNode [TextNode (cs @ [nl])]]))
     \<and> html (DocumentNode [ParagraphNode [TextNode (cs @ [nl])]]) = ''<p>'' @ cs @ [nl] @ ''</p>''"
proof -
  from assms have nb: "\<not> list_all isWhiteSpace cs"
    and pl: "list_all (\<lambda>c. c \<noteq> nl \<and> isPlainChar c) cs"
    and hd: "hd cs \<noteq> CHR '' ''" "hd cs \<noteq> CHR ''>''" "hd cs \<noteq> CHR ''#''"
    by (simp_all add: plainLine_def)
  from nb have ne: "cs \<noteq> []" by auto
  have t: "tokenize cs = textTokens (cs @ [nl])"
    by (rule tokenize_plain_line[OF nb pl hd(1) hd(2)])
  have pnl: "isPlainChar nl" by (simp add: isPlainChar_def styleChars_def layoutChars_def)
  from pl have "list_all isPlainChar cs" by (simp add: list_all_iff)
  with pnl have a: "list_all isPlainChar (cs @ [nl])" by simp
  from pl ne have "hd cs \<noteq> nl" by (cases cs) auto
  with ne have b: "hd (cs @ [nl]) \<noteq> nl" by simp
  from hd(3) ne have c: "hd (cs @ [nl]) \<noteq> CHR ''#''" by simp
  have "parse (n + 4) (textTokens (cs @ [nl]))
     = Some (Inr (DocumentNode [ParagraphNode [TextNode (cs @ [nl])]]))"
    by (rule parse_plain_tokens[OF a _ b c]) simp
  with t show ?thesis by (simp only: html_plain_paragraph append_assoc simp_thms)
qed

text \<open>Claim C5, amended, at the line \<open>hello\<close>.\<close>

theorem plain_line_round_trip_witness:
  "plainLine ''hello''
   \<and> tokenize ''hello'' = textTokens (''hello'' @ [nl])
   \<and> parse 4 (tokenize ''hello'')
       = Some (Inr (DocumentNode [ParagraphNode [TextNode (''hello'' @ [nl])]]))
   \<and> html (DocumentNode [ParagraphNode [TextNode (''hello'' @ [nl])]])
       = ''<p>'' @ ''hello'' @ [nl] @ ''</p>''"
proof -
  have h: "plainLine ''hello''"
    by (simp add: plainLine_def isWhiteSpace_def isPlainChar_def styleChars_def layoutChars_def)
  have r: "tokenize ''hello'' = textTokens (''hello'' @ [nl])
     \<and> parse 4 (tokenize ''hello'')
         = Some (Inr (DocumentNode [ParagraphNode [TextNode (''hello'' @ [nl])]]))
     \<and> html (DocumentNode [ParagraphNode [TextNode (''hello'' @ [nl])]])
         = ''<p>'' @ ''hello'' @ [nl] @ ''</p>''"
    using plain_line_round_trip[OF h, of 0] unfolding add_0 .
  from h r show ?thesis by (rule conjI)
qed

text \<open>Claim C5 as written fails: for the line \<open>a\<close> the text of the node is \<open>a\<close> followed by
  a newline, not the line itself, and the document does not render to \<open><p>a</p>\<close>.\<close>

theorem plain_line_text_counterexample:
  "plainLine ''a''
   \<and> parse 20 (tokenize ''a'') = Some (Inr (DocumentNode [ParagraphNode [TextNode (''a'' @ [nl])]]))
   \<and> parse 20 (tokenize ''a'') \<noteq> Some (Inr (DocumentNode [ParagraphNode [TextNode ''a'']]))
   \<and> map_option (map_sum id html) (parse 20 (tokenize ''a''))
       = Some (Inr (''<p>a'' @ [nl] @ ''</p>''))
   \<and> map_option (map_sum id html) (parse 20 (tokenize ''a'')) \<noteq> Some (Inr ''<p>a</p>'')"
  by code_simp

end
